theory Spec2Isabelle
  imports Complex_Main "HOL-Library.AList"
begin

section \<open>Errors\<close>

text \<open>
  A thrown JavaScript value that is an \<open>Error\<close> object: its constructor and its
  \<open>message\<close>. The transport (axios) and the XML codec (xml2js) are collaborators of
  the adapter; what they throw is \<open>TransportError\<close> and \<open>CodecError\<close>.
\<close>

datatype exn = TypeError string | RangeError string | TransportError string | CodecError string

fun message :: "exn \<Rightarrow> string" where
  "message (TypeError m) = m"
| "message (RangeError m) = m"
| "message (TransportError m) = m"
| "message (CodecError m) = m"

section \<open>Structured values\<close>

text \<open>
  The values that flow through the pipeline are what the decoders produce: JSON-like
  trees, and \<open>undefined\<close> for a missing CSV cell. A number is a finite real, or one
  of the three non-finite doubles. An object is the list of its own enumerable
  properties in enumeration order; an array is dense. A text is a sequence of 8-bit
  characters, each standing for the code unit of its number; the text helpers below
  are JavaScript's on such texts, except that the case mappings are those of the ASCII
  letters. \<open>VBuiltin n\<close> is the built-in function named \<open>n\<close>: what a read of an
  inherited member such as \<open>toString\<close> returns. \<open>Date\<close> instances and symbols
  are outside the model, and the zero of the numbers has no sign.
\<close>

datatype jsnum = Fin real | NaN | PosInf | NegInf

datatype jsval =
    VUndefined
  | VNull
  | VBool bool
  | VNum jsnum
  | VStr string
  | VArr "jsval list"
  | VObj "(string \<times> jsval) list"
  | VBuiltin string

fun typeof :: "jsval \<Rightarrow> string" where
  "typeof VUndefined = ''undefined''"
| "typeof VNull = ''object''"
| "typeof (VBool b) = ''boolean''"
| "typeof (VNum n) = ''number''"
| "typeof (VStr s) = ''string''"
| "typeof (VArr xs) = ''object''"
| "typeof (VObj ps) = ''object''"
| "typeof (VBuiltin n) = ''function''"

fun isArray :: "jsval \<Rightarrow> bool" where
  "isArray (VArr xs) = True"
| "isArray v = False"

subsection \<open>Decimal property names\<close>

definition is_digit :: "char \<Rightarrow> bool" where
  "is_digit c = (48 \<le> (of_char c :: nat) \<and> (of_char c :: nat) \<le> 57)"

definition digit_val :: "char \<Rightarrow> nat" where
  "digit_val c = of_char c - 48"

definition dec_value :: "string \<Rightarrow> nat" where
  "dec_value s = foldl (\<lambda>n c. 10 * n + digit_val c) 0 s"

text \<open>
  An array index in the sense of ECMAScript: the canonical decimal form of an integer
  below \<open>2^32 - 1\<close>. Such keys are enumerated first, in ascending order.
\<close>

definition array_index :: "string \<Rightarrow> nat option" where
  "array_index s =
     (if s \<noteq> [] \<and> list_all is_digit s \<and> (length s = 1 \<or> hd s \<noteq> CHR ''0'')
         \<and> dec_value s < 4294967295
      then Some (dec_value s) else None)"

definition digit_char :: "nat \<Rightarrow> char" where
  "digit_char n = ''0123456789'' ! n"

function show_nat :: "nat \<Rightarrow> string" where
  "show_nat n = (if n < 10 then [digit_char n] else show_nat (n div 10) @ [digit_char (n mod 10)])"
  by pat_completeness auto
termination
  by (relation "measure id") auto

subsection \<open>Text\<close>

text \<open>\<open>s.split(d)\<close> for a one-character separator \<open>d\<close>. The result is never empty:
  the empty text splits into one empty piece.\<close>

fun split_on :: "char \<Rightarrow> string \<Rightarrow> string list" where
  "split_on d [] = [[]]"
| "split_on d (c # cs) =
     (if c = d then [] # split_on d cs
      else (case split_on d cs of
              w # ws \<Rightarrow> (c # w) # ws
            | [] \<Rightarrow> [[c]]))"

text \<open>\<open>xs.join(sep)\<close> on an array of strings.\<close>

fun join :: "string \<Rightarrow> string list \<Rightarrow> string" where
  "join sep [] = []"
| "join sep [x] = x"
| "join sep (x # y # ys) = x @ sep @ join sep (y # ys)"

text \<open>The white space that \<open>trim\<close> removes, among the code units below 256.\<close>

definition is_space :: "char \<Rightarrow> bool" where
  "is_space c = ((of_char c :: nat) \<in> {9, 10, 11, 12, 13, 32, 160})"

definition trim :: "string \<Rightarrow> string" where
  "trim s = rev (dropWhile is_space (rev (dropWhile is_space s)))"

definition lower_letters :: string where
  "lower_letters = ''abcdefghijklmnopqrstuvwxyz''"

definition upper_letters :: string where
  "upper_letters = ''ABCDEFGHIJKLMNOPQRSTUVWXYZ''"

definition upper_char :: "char \<Rightarrow> char" where
  "upper_char c = (case map_of (zip lower_letters upper_letters) c of Some u \<Rightarrow> u | None \<Rightarrow> c)"

definition lower_char :: "char \<Rightarrow> char" where
  "lower_char c = (case map_of (zip upper_letters lower_letters) c of Some l \<Rightarrow> l | None \<Rightarrow> c)"

definition toUpperCase :: "string \<Rightarrow> string" where
  "toUpperCase s = map upper_char s"

definition toLowerCase :: "string \<Rightarrow> string" where
  "toLowerCase s = map lower_char s"

subsection \<open>The host: the JavaScript runtime and the XML library\<close>

text \<open>
  What the adapter calls and does not define is a parameter of the model:
  \<^item> \<open>parseStringPromise\<close> and \<open>buildObject\<close> of xml2js, which may throw;
  \<^item> the conversions between finite numbers and text;
  \<^item> \<open>dateParse s\<close>, the time value of \<open>new Date(s)\<close> in milliseconds, \<open>None\<close>
    when the text is not recognised (the time value is \<open>NaN\<close>: an invalid date);
  \<^item> \<open>isoFormat t\<close>, the text \<open>toISOString\<close> gives for a valid time value;
  \<^item> \<open>member v k\<close>, what the runtime finds under the name \<open>k\<close> on the value \<open>v\<close>
    when \<open>k\<close> is not one of the own properties that the value carries in this model:
    a member inherited through the prototype chain (\<open>toString\<close>, \<open>constructor\<close>
    and the other members of \<open>Object.prototype\<close> on an object), \<open>None\<close> when there
    is none;
  \<^item> the product, the sum and the quotient of two numbers, as double-precision
    arithmetic rounds them.
\<close>

record host =
  parseStringPromise :: "string \<Rightarrow> exn + jsval"
  buildObject :: "jsval \<Rightarrow> exn + string"
  numberToString :: "real \<Rightarrow> string"
  stringToNumber :: "string \<Rightarrow> jsnum"
  dateParse :: "string \<Rightarrow> int option"
  isoFormat :: "int \<Rightarrow> string"
  member :: "jsval \<Rightarrow> string \<Rightarrow> jsval option"
  numberTimes :: "jsnum \<Rightarrow> jsnum \<Rightarrow> jsnum"
  numberPlus :: "jsnum \<Rightarrow> jsnum \<Rightarrow> jsnum"
  numberDivide :: "jsnum \<Rightarrow> jsnum \<Rightarrow> jsnum"

text \<open>\<open>Date.prototype.toISOString\<close>: a \<open>RangeError\<close> on an invalid date.\<close>

definition toISOString :: "host \<Rightarrow> int option \<Rightarrow> exn + string" where
  "toISOString H tv =
     (case tv of
        None \<Rightarrow> Inl (RangeError ''Invalid time value'')
      | Some t \<Rightarrow> Inr (isoFormat H t))"

fun num_text :: "host \<Rightarrow> jsnum \<Rightarrow> string" where
  "num_text H (Fin r) = numberToString H r"
| "num_text H NaN = ''NaN''"
| "num_text H PosInf = ''Infinity''"
| "num_text H NegInf = ''-Infinity''"

text \<open>\<open>String(v)\<close>: an array joins its elements with commas, \<open>null\<close> and
  \<open>undefined\<close> elements as the empty text; a built-in function gives its source
  text, which hides the body. An object is converted by the \<open>toString\<close> that it
  inherits: an object with a property \<open>toString\<close> or \<open>valueOf\<close> of its own is
  outside the model, here and in \<open>Number\<close>.\<close>

fun String :: "host \<Rightarrow> jsval \<Rightarrow> string" where
  "String H VUndefined = ''undefined''"
| "String H VNull = ''null''"
| "String H (VBool b) = (if b then ''true'' else ''false'')"
| "String H (VNum n) = num_text H n"
| "String H (VStr s) = s"
| "String H (VArr xs) =
     join '','' (map (\<lambda>x. if x = VUndefined \<or> x = VNull then [] else String H x) xs)"
| "String H (VObj ps) = ''[object Object]''"
| "String H (VBuiltin n) = ''function '' @ n @ ''() { [native code] }''"

text \<open>\<open>Number(v)\<close>: an array, an object or a function is converted through its text.\<close>

fun Number :: "host \<Rightarrow> jsval \<Rightarrow> jsnum" where
  "Number H VUndefined = NaN"
| "Number H VNull = Fin 0"
| "Number H (VBool b) = (if b then Fin 1 else Fin 0)"
| "Number H (VNum n) = n"
| "Number H (VStr s) = stringToNumber H s"
| "Number H (VArr xs) = stringToNumber H (String H (VArr xs))"
| "Number H (VObj ps) = stringToNumber H (String H (VObj ps))"
| "Number H (VBuiltin n) = stringToNumber H (String H (VBuiltin n))"

fun Boolean :: "jsval \<Rightarrow> bool" where
  "Boolean VUndefined = False"
| "Boolean VNull = False"
| "Boolean (VBool b) = b"
| "Boolean (VNum n) = (n \<noteq> Fin 0 \<and> n \<noteq> NaN)"
| "Boolean (VStr s) = (s \<noteq> [])"
| "Boolean (VArr xs) = True"
| "Boolean (VObj ps) = True"
| "Boolean (VBuiltin n) = True"

subsection \<open>\<open>JSON.stringify\<close>\<close>

definition hex_digit :: "nat \<Rightarrow> char" where
  "hex_digit n = ''0123456789abcdef'' ! n"

definition json_escape :: "char \<Rightarrow> string" where
  "json_escape c =
     (let n = (of_char c :: nat) in
      if n = 34 then [CHR 0x5C, CHR 0x22]
      else if n = 92 then [CHR 0x5C, CHR 0x5C]
      else if n = 8 then [CHR 0x5C, CHR ''b'']
      else if n = 12 then [CHR 0x5C, CHR ''f'']
      else if n = 10 then [CHR 0x5C, CHR ''n'']
      else if n = 13 then [CHR 0x5C, CHR ''r'']
      else if n = 9 then [CHR 0x5C, CHR ''t'']
      else if n < 32 then [CHR 0x5C, CHR ''u'', CHR ''0'', CHR ''0'', hex_digit (n div 16), hex_digit (n mod 16)]
      else [c])"

definition json_quote :: "string \<Rightarrow> string" where
  "json_quote s = [CHR 0x22] @ concat (map json_escape s) @ [CHR 0x22]"

text \<open>
  \<open>JSON.stringify(v)\<close>, \<open>None\<close> where it returns \<open>undefined\<close>. In an array
  \<open>undefined\<close> is written \<open>null\<close>; in an object a property whose value is
  \<open>undefined\<close> is left out; a non-finite number is written \<open>null\<close>; a function
  is treated as \<open>undefined\<close> is. An object with a method \<open>toJSON\<close> is outside
  the model.
\<close>

fun JSON_stringify :: "host \<Rightarrow> jsval \<Rightarrow> string option" where
  "JSON_stringify H VUndefined = None"
| "JSON_stringify H VNull = Some ''null''"
| "JSON_stringify H (VBool b) = Some (if b then ''true'' else ''false'')"
| "JSON_stringify H (VNum (Fin r)) = Some (numberToString H r)"
| "JSON_stringify H (VNum n) = Some ''null''"
| "JSON_stringify H (VStr s) = Some (json_quote s)"
| "JSON_stringify H (VArr xs) =
     Some (''['' @ join '',''
        (map (\<lambda>x. case JSON_stringify H x of None \<Rightarrow> ''null'' | Some t \<Rightarrow> t) xs) @ '']'')"
| "JSON_stringify H (VObj ps) =
     Some (''{'' @ join '',''
        (concat (map (\<lambda>p. case JSON_stringify H (snd p) of
                            None \<Rightarrow> []
                          | Some t \<Rightarrow> [json_quote (fst p) @ '':'' @ t]) ps)) @ ''}'')"
| "JSON_stringify H (VBuiltin n) = None"

subsection \<open>Properties, own and inherited\<close>

definition indexed :: "'a list \<Rightarrow> (string \<times> 'a) list" where
  "indexed xs = zip (map show_nat [0..<length xs]) xs"

text \<open>The own properties of a value: those of an object, and \<open>length\<close> and the
  indices of an array or a text.\<close>

fun own_prop :: "jsval \<Rightarrow> string \<Rightarrow> jsval option" where
  "own_prop (VObj ps) k = map_of ps k"
| "own_prop (VArr xs) k =
     (if k = ''length'' then Some (VNum (Fin (real (length xs))))
      else (case array_index k of
              Some i \<Rightarrow> if i < length xs then Some (xs ! i) else None
            | None \<Rightarrow> None))"
| "own_prop (VStr s) k =
     (if k = ''length'' then Some (VNum (Fin (real (length s))))
      else (case array_index k of
              Some i \<Rightarrow> if i < length s then Some (VStr [s ! i]) else None
            | None \<Rightarrow> None))"
| "own_prop v k = None"

text \<open>
  The property lookup of the runtime: an own property first, then what the value
  inherits. \<open>None\<close> when the name is found nowhere on the prototype chain.
\<close>

definition find_prop :: "host \<Rightarrow> jsval \<Rightarrow> string \<Rightarrow> jsval option" where
  "find_prop H v k = (case own_prop v k of Some x \<Rightarrow> Some x | None \<Rightarrow> member H v k)"

text \<open>\<open>v[k]\<close>: reading a property of \<open>null\<close> or \<open>undefined\<close> throws; a name that
  the lookup does not find reads as \<open>undefined\<close>.\<close>

fun get_prop :: "host \<Rightarrow> jsval \<Rightarrow> string \<Rightarrow> exn + jsval" where
  "get_prop H VUndefined k = Inl (TypeError ''Cannot read properties of undefined'')"
| "get_prop H VNull k = Inl (TypeError ''Cannot read properties of null'')"
| "get_prop H v k = Inr (case find_prop H v k of Some x \<Rightarrow> x | None \<Rightarrow> VUndefined)"

text \<open>\<open>Object.entries(v)\<close> and \<open>Object.keys(v)\<close>: the own enumerable properties.\<close>

fun object_entries :: "jsval \<Rightarrow> exn + (string \<times> jsval) list" where
  "object_entries VUndefined = Inl (TypeError ''Cannot convert undefined or null to object'')"
| "object_entries VNull = Inl (TypeError ''Cannot convert undefined or null to object'')"
| "object_entries (VObj ps) = Inr ps"
| "object_entries (VArr xs) = Inr (indexed xs)"
| "object_entries (VStr s) = Inr (indexed (map (\<lambda>c. VStr [c]) s))"
| "object_entries (VBool b) = Inr []"
| "object_entries (VNum n) = Inr []"
| "object_entries (VBuiltin n) = Inr []"

definition object_keys :: "jsval \<Rightarrow> exn + string list" where
  "object_keys v = (case object_entries v of Inl e \<Rightarrow> Inl e | Inr ps \<Rightarrow> Inr (map fst ps))"

text \<open>\<open>k in v\<close>: true when the lookup finds the name, on the value itself or on
  its prototype chain; a \<open>TypeError\<close> when \<open>v\<close> is \<open>null\<close> or not an object.\<close>

fun has_property :: "host \<Rightarrow> string \<Rightarrow> jsval \<Rightarrow> exn + bool" where
  "has_property H k (VObj ps) = Inr (find_prop H (VObj ps) k \<noteq> None)"
| "has_property H k (VArr xs) = Inr (find_prop H (VArr xs) k \<noteq> None)"
| "has_property H k (VBuiltin n) = Inr (find_prop H (VBuiltin n) k \<noteq> None)"
| "has_property H k v = Inl (TypeError ''Cannot use in operator to search for a key in a non-object'')"

text \<open>The spread \<open>{...v}\<close> of a value whose \<open>typeof\<close> is \<open>object\<close> and that is not
  \<open>null\<close>: a new plain object with the own enumerable properties of \<open>v\<close>.\<close>

fun spread :: "jsval \<Rightarrow> (string \<times> jsval) list" where
  "spread (VObj ps) = ps"
| "spread (VArr xs) = indexed xs"
| "spread (VStr s) = indexed (map (\<lambda>c. VStr [c]) s)"
| "spread v = []"

fun insert_index :: "nat \<Rightarrow> string \<times> jsval \<Rightarrow> (string \<times> jsval) list \<Rightarrow> (string \<times> jsval) list" where
  "insert_index n kv [] = [kv]"
| "insert_index n kv (p # ps) =
     (case array_index (fst p) of
        Some m \<Rightarrow> if m < n then p # insert_index n kv ps else kv # p # ps
      | None \<Rightarrow> kv # p # ps)"

text \<open>
  \<open>obj[k] = v\<close> on an object that an object literal has created, as \<open>mapFields\<close>,
  \<open>applyTransforms\<close> and \<open>parseCSV\<close> do: an existing property keeps its place; a
  new array-index key goes among the index keys in ascending order, any other new key
  goes last. The name \<open>__proto__\<close>, when it is not an own property, is the accessor
  of \<open>Object.prototype\<close>: the assignment calls its setter and no property is added.
  The setter replaces the prototype when the value is an object or \<open>null\<close>; the new
  prototype is not recorded in the model, so what the object inherits afterwards is
  not represented.
\<close>

definition obj_set :: "(string \<times> jsval) list \<Rightarrow> string \<Rightarrow> jsval \<Rightarrow> (string \<times> jsval) list" where
  "obj_set ps k v =
     (if k \<in> set (map fst ps) then AList.update k v ps
      else if k = ''__proto__'' then ps
      else (case array_index k of
              None \<Rightarrow> ps @ [(k, v)]
            | Some n \<Rightarrow> insert_index n (k, v) ps))"

subsection \<open>Arithmetic\<close>

text \<open>\<open>Math.min\<close> of two numbers. The other operations are the host's.\<close>

fun js_min :: "jsnum \<Rightarrow> jsnum \<Rightarrow> jsnum" where
  "js_min NaN y = NaN"
| "js_min x NaN = NaN"
| "js_min NegInf y = NegInf"
| "js_min x NegInf = NegInf"
| "js_min PosInf y = y"
| "js_min x PosInf = x"
| "js_min (Fin a) (Fin b) = Fin (min a b)"

section \<open>The retry executor\<close>

text \<open>
  \<open>RetryPolicy\<close> of \<open>types.ts\<close>. \<open>maxRetries\<close> is a count and is modelled as an
  integer; the delays and the multiplier are JavaScript numbers.
\<close>

record RetryPolicy =
  maxRetries :: int
  initialDelayMs :: jsnum
  maxDelayMs :: jsnum
  backoffMultiplier :: jsnum

definition defaultRetryPolicy :: RetryPolicy where
  "defaultRetryPolicy =
     \<lparr>maxRetries = 3, initialDelayMs = Fin 1000, maxDelayMs = Fin 10000, backoffMultiplier = Fin 2\<rparr>"

text \<open>
  What the adapter does to the outside world, in order. In \<open>executeWithRetry\<close>: one
  transport call per attempt, and between two attempts a warning to the logger (the
  retry number, the error message, the delay) and a sleep. In \<open>execute\<close>: the final
  \<open>info\<close> (duration, status code) or \<open>error\<close> (message, duration) log call. The
  logger returns nothing and is taken not to throw.
\<close>

datatype event =
    Attempt nat
  | LogWarn nat string jsnum
  | Sleep jsnum
  | LogInfo int int
  | LogError string int

fun emit :: "event list \<Rightarrow> event list \<times> 'r \<Rightarrow> event list \<times> 'r" where
  "emit evs (tr, r) = (evs @ tr, r)"

text \<open>
  The \<open>for\<close> loop of \<open>executeWithRetry\<close>, from the state \<open>(attempt, delay, lastError)\<close>.
  \<open>op attempt\<close> is the outcome of the transport call made at that attempt:
  \<open>Inl\<close> what it throws, \<open>Inr\<close> the response. The result is \<open>Inr\<close> the response
  returned, or \<open>Inl lastError\<close> for \<open>throw lastError\<close>, where \<open>None\<close> is the
  initial \<open>null\<close>. The next delay is \<open>Math.min\<close> of the product that the runtime
  computes and the cap.
\<close>

function retry_loop ::
  "host \<Rightarrow> RetryPolicy \<Rightarrow> (nat \<Rightarrow> exn + 'r) \<Rightarrow> nat \<Rightarrow> jsnum \<Rightarrow> exn option
     \<Rightarrow> event list \<times> (exn option + 'r)" where
  "retry_loop H pol op attempt delay lastError =
     (if int attempt \<le> maxRetries pol then
        (case op attempt of
           Inr response \<Rightarrow> ([Attempt attempt], Inr response)
         | Inl error \<Rightarrow>
             (if int attempt < maxRetries pol then
                emit [Attempt attempt, LogWarn (attempt + 1) (message error) delay, Sleep delay]
                  (retry_loop H pol op (Suc attempt)
                     (js_min (numberTimes H delay (backoffMultiplier pol)) (maxDelayMs pol))
                     (Some error))
              else
                emit [Attempt attempt]
                  (retry_loop H pol op (Suc attempt) delay (Some error))))
      else ([], Inl lastError))"
  by pat_completeness auto
termination
  by (relation "measure (\<lambda>(H, pol, op, attempt, delay, lastError).
        nat (maxRetries pol + 1 - int attempt))") auto

section \<open>Configuration\<close>

datatype transform_type = TDate | TNumber | TBoolean | TUppercase | TLowercase | TCustom

record FieldTransform =
  sourceField :: string
  targetField :: string
  transformType :: transform_type
  transformFn :: "string option"

text \<open>
  \<open>sourceFields\<close> is the mapping object as \<open>Object.entries\<close> enumerates it. The
  engine tests \<open>sourceFields\<close> and \<open>transforms\<close> for presence before it uses them, so
  both are optional here. \<open>customMappings\<close> is never read by the engine.
\<close>

record SchemaMapping =
  sourceFields :: "(string \<times> string) list option"
  transforms :: "FieldTransform list option"

record AdapterConfig =
  name :: string
  sourceFormat :: string
  targetFormat :: string
  schemaMapping :: "SchemaMapping option"
  endpoint :: "string option"
  timeout :: "jsnum option"
  retryPolicy :: "RetryPolicy option"

section \<open>The schema mapper\<close>

text \<open>The own value of a property list at a name, \<open>undefined\<close> when it has none.\<close>

definition obj_get :: "(string \<times> jsval) list \<Rightarrow> string \<Rightarrow> jsval" where
  "obj_get ps k = (case map_of ps k of Some v \<Rightarrow> v | None \<Rightarrow> VUndefined)"

text \<open>The loop of \<open>mapFields\<close> over \<open>Object.entries(mapping)\<close>, with \<open>result\<close> as it grows.\<close>

fun mapFields_loop ::
  "host \<Rightarrow> jsval \<Rightarrow> (string \<times> string) list \<Rightarrow> (string \<times> jsval) list
     \<Rightarrow> exn + (string \<times> jsval) list" where
  "mapFields_loop H data [] result = Inr result"
| "mapFields_loop H data (st # rest) result =
     (case has_property H (fst st) data of
        Inl e \<Rightarrow> Inl e
      | Inr present \<Rightarrow>
          if present then
            (case get_prop H data (fst st) of
               Inl e \<Rightarrow> Inl e
             | Inr v \<Rightarrow> mapFields_loop H data rest (obj_set result (snd st) v))
          else mapFields_loop H data rest result)"

definition mapFields :: "host \<Rightarrow> jsval \<Rightarrow> (string \<times> string) list \<Rightarrow> exn + jsval" where
  "mapFields H data mapping =
     (case mapFields_loop H data mapping [] of Inl e \<Rightarrow> Inl e | Inr result \<Rightarrow> Inr (VObj result))"

text \<open>
  \<open>applyTransformValue\<close>. No value of the model is a \<open>Date\<close> instance, so the date
  case is \<open>new Date(String(value)).toISOString()\<close>.
\<close>

fun applyTransformValue :: "host \<Rightarrow> jsval \<Rightarrow> transform_type \<Rightarrow> exn + jsval" where
  "applyTransformValue H v TUppercase = Inr (case v of VStr s \<Rightarrow> VStr (toUpperCase s) | _ \<Rightarrow> v)"
| "applyTransformValue H v TLowercase = Inr (case v of VStr s \<Rightarrow> VStr (toLowerCase s) | _ \<Rightarrow> v)"
| "applyTransformValue H v TNumber = Inr (VNum (Number H v))"
| "applyTransformValue H v TBoolean = Inr (VBool (Boolean v))"
| "applyTransformValue H v TDate =
     (case toISOString H (dateParse H (String H v)) of Inl e \<Rightarrow> Inl e | Inr s \<Rightarrow> Inr (VStr s))"
| "applyTransformValue H v TCustom = Inr v"

text \<open>The inner \<open>for\<close> loop of \<open>applyTransforms\<close> over the rules, on the copy \<open>result\<close>.\<close>

fun apply_rules ::
  "host \<Rightarrow> FieldTransform list \<Rightarrow> (string \<times> jsval) list \<Rightarrow> exn + (string \<times> jsval) list" where
  "apply_rules H [] result = Inr result"
| "apply_rules H (t # ts) result =
     (case has_property H (sourceField t) (VObj result) of
        Inl e \<Rightarrow> Inl e
      | Inr present \<Rightarrow>
          if present then
            (case get_prop H (VObj result) (sourceField t) of
               Inl e \<Rightarrow> Inl e
             | Inr v \<Rightarrow>
                 (case applyTransformValue H v (transformType t) of
                    Inl e \<Rightarrow> Inl e
                  | Inr w \<Rightarrow> apply_rules H ts (obj_set result (targetField t) w)))
          else apply_rules H ts result)"

text \<open>\<open>xs.map(f)\<close> for a callback that may throw: the first throw ends the call.\<close>

fun map_result :: "('a \<Rightarrow> exn + 'b) \<Rightarrow> 'a list \<Rightarrow> exn + 'b list" where
  "map_result f [] = Inr []"
| "map_result f (x # xs) =
     (case f x of
        Inl e \<Rightarrow> Inl e
      | Inr y \<Rightarrow> (case map_result f xs of Inl e \<Rightarrow> Inl e | Inr ys \<Rightarrow> Inr (y # ys)))"

definition transform_item :: "host \<Rightarrow> FieldTransform list \<Rightarrow> jsval \<Rightarrow> exn + jsval" where
  "transform_item H ts item =
     (if typeof item \<noteq> ''object'' \<or> item = VNull then Inr item
      else (case apply_rules H ts (spread item) of Inl e \<Rightarrow> Inl e | Inr result \<Rightarrow> Inr (VObj result)))"

definition applyTransforms :: "host \<Rightarrow> jsval \<Rightarrow> FieldTransform list \<Rightarrow> exn + jsval" where
  "applyTransforms H data ts =
     (case data of
        VArr items \<Rightarrow>
          (case map_result (transform_item H ts) items of Inl e \<Rightarrow> Inl e | Inr out \<Rightarrow> Inr (VArr out))
      | _ \<Rightarrow> Inr data)"

record MappingResult =
  mr_data :: jsval
  mapped :: nat
  transformed :: nat

definition applySchemaMapping :: "host \<Rightarrow> AdapterConfig \<Rightarrow> jsval \<Rightarrow> exn + MappingResult" where
  "applySchemaMapping H cfg data =
     (case schemaMapping cfg of
        None \<Rightarrow> Inr \<lparr>mr_data = data, mapped = 0, transformed = 0\<rparr>
      | Some sm \<Rightarrow>
          (case (case sourceFields sm of
                   Some mapping \<Rightarrow>
                     if typeof data = ''object'' then
                       (case mapFields H data mapping of
                          Inl e \<Rightarrow> Inl e
                        | Inr result \<Rightarrow> Inr (result, length mapping))
                     else Inr (data, 0)
                 | None \<Rightarrow> Inr (data, 0)) of
             Inl e \<Rightarrow> Inl e
           | Inr (result, n) \<Rightarrow>
               (case transforms sm of
                  Some ts \<Rightarrow>
                    (case applyTransforms H result ts of
                       Inl e \<Rightarrow> Inl e
                     | Inr result' \<Rightarrow> Inr \<lparr>mr_data = result', mapped = n, transformed = length ts\<rparr>)
                | None \<Rightarrow> Inr \<lparr>mr_data = result, mapped = n, transformed = 0\<rparr>)))"

section \<open>The CSV codec\<close>

definition csv_row :: "string list \<Rightarrow> string list \<Rightarrow> (string \<times> jsval) list" where
  "csv_row headers values =
     foldl (\<lambda>row (header, idx).
              obj_set row (trim header)
                (if idx < length values then VStr (trim (values ! idx)) else VUndefined))
       [] (zip headers [0..<length headers])"

definition parseCSV :: "string \<Rightarrow> jsval list" where
  "parseCSV csv =
     (case filter (\<lambda>line. trim line \<noteq> []) (split_on (CHR 0x0A) csv) of
        [] \<Rightarrow> []
      | first # rest \<Rightarrow>
          map (\<lambda>line. VObj (csv_row (split_on (CHR '','') first) (split_on (CHR '','') line))) rest)"

text \<open>One cell of \<open>toCSV\<close>: \<open>JSON.stringify\<close> of \<open>item[h]\<close>, or of the empty text when
  that is \<open>null\<close> or \<open>undefined\<close>.\<close>

definition csv_cell :: "host \<Rightarrow> jsval \<Rightarrow> string" where
  "csv_cell H v =
     (case JSON_stringify H (if v = VNull \<or> v = VUndefined then VStr [] else v) of
        Some t \<Rightarrow> t
      | None \<Rightarrow> [])"

definition csv_line :: "host \<Rightarrow> string list \<Rightarrow> jsval \<Rightarrow> exn + string" where
  "csv_line H headers item =
     (case map_result (\<lambda>h. case get_prop H item h of Inl e \<Rightarrow> Inl e | Inr v \<Rightarrow> Inr (csv_cell H v)) headers of
        Inl e \<Rightarrow> Inl e
      | Inr cells \<Rightarrow> Inr (join '','' cells))"

definition toCSV :: "host \<Rightarrow> jsval list \<Rightarrow> exn + string" where
  "toCSV H data =
     (case data of
        [] \<Rightarrow> Inr []
      | firstItem # _ \<Rightarrow>
          (case object_keys firstItem of
             Inl e \<Rightarrow> Inl e
           | Inr headers \<Rightarrow>
               (case map_result (csv_line H headers) data of
                  Inl e \<Rightarrow> Inl e
                | Inr rows \<Rightarrow> Inr (join [CHR 0x0A] (join '','' headers # rows)))))"

section \<open>The transformation pipeline\<close>

record TransformMetadata =
  tm_sourceFormat :: string
  tm_targetFormat :: string
  fieldsMapped :: nat
  fieldsTransformed :: nat
  tm_timestamp :: string

record AdapterTransformResult =
  tr_data :: jsval
  tr_metadata :: TransformMetadata

definition parseXML :: "host \<Rightarrow> string \<Rightarrow> exn + jsval" where
  "parseXML H xml = parseStringPromise H xml"

definition parseSOAP :: "host \<Rightarrow> jsval \<Rightarrow> exn + jsval" where
  "parseSOAP H data = (case data of VStr s \<Rightarrow> parseXML H s | _ \<Rightarrow> Inr data)"

definition toXML :: "host \<Rightarrow> jsval \<Rightarrow> exn + string" where
  "toXML H obj = buildObject H obj"

text \<open>The decoding step of \<open>transform\<close>: the decoded value and the first value of \<open>fieldsMapped\<close>.\<close>

definition decode :: "host \<Rightarrow> string \<Rightarrow> jsval \<Rightarrow> exn + jsval \<times> nat" where
  "decode H fmt data =
     (if fmt = ''xml'' \<and> typeof data = ''string'' then
        (case data of
           VStr s \<Rightarrow> (case parseXML H s of Inl e \<Rightarrow> Inl e | Inr v \<Rightarrow> Inr (v, 1))
         | _ \<Rightarrow> Inr (data, 0))
      else if fmt = ''csv'' \<and> typeof data = ''string'' then
        (case data of
           VStr s \<Rightarrow> Inr (VArr (parseCSV s), 1)
         | _ \<Rightarrow> Inr (data, 0))
      else if fmt = ''soap'' then
        (case parseSOAP H data of Inl e \<Rightarrow> Inl e | Inr v \<Rightarrow> Inr (v, 1))
      else Inr (data, 0))"

text \<open>The encoding step of \<open>transform\<close>.\<close>

definition encode :: "host \<Rightarrow> string \<Rightarrow> jsval \<Rightarrow> exn + jsval" where
  "encode H target v =
     (if target = ''xml'' \<and> typeof v = ''object'' then
        (case toXML H v of Inl e \<Rightarrow> Inl e | Inr s \<Rightarrow> Inr (VStr s))
      else if target = ''csv'' \<and> isArray v then
        (case v of
           VArr xs \<Rightarrow> (case toCSV H xs of Inl e \<Rightarrow> Inl e | Inr s \<Rightarrow> Inr (VStr s))
         | _ \<Rightarrow> Inr v)
      else Inr v)"

text \<open>
  \<open>transform(data, targetFormat)\<close>. \<open>stamp\<close> is the text of the clock when the
  metadata is built. An absent or empty \<open>targetFormat\<close> falls back to the configured one.
\<close>

definition transform ::
  "host \<Rightarrow> AdapterConfig \<Rightarrow> string \<Rightarrow> jsval \<Rightarrow> string option \<Rightarrow> exn + AdapterTransformResult" where
  "transform H cfg stamp data override =
     (let target = (case override of
                      Some t \<Rightarrow> if t \<noteq> [] then t else targetFormat cfg
                    | None \<Rightarrow> targetFormat cfg)
      in case decode H (sourceFormat cfg) data of
           Inl e \<Rightarrow> Inl e
         | Inr (decoded, m0) \<Rightarrow>
             (case (if schemaMapping cfg \<noteq> None then applySchemaMapping H cfg decoded
                    else Inr \<lparr>mr_data = decoded, mapped = m0, transformed = 0\<rparr>) of
                Inl e \<Rightarrow> Inl e
              | Inr r \<Rightarrow>
                  (case encode H target (mr_data r) of
                     Inl e \<Rightarrow> Inl e
                   | Inr out \<Rightarrow>
                       Inr \<lparr>tr_data = out,
                            tr_metadata =
                              \<lparr>tm_sourceFormat = sourceFormat cfg, tm_targetFormat = target,
                               fieldsMapped = mapped r, fieldsTransformed = transformed r,
                               tm_timestamp = stamp\<rparr>\<rparr>)))"

section \<open>Schema inference\<close>

datatype field_type = FString | FNumber | FBoolean | FDate | FArray | FObject

record InferredField =
  field_name :: string
  field_type :: field_type
  nullable :: bool
  sampleValues :: "jsval list"

record InferredSchema =
  inferred_fields :: "InferredField list"
  confidence :: jsnum
  suggestions :: "string list"

text \<open>A regular expression anchored at the start, as a list of character tests:
  \<open>None\<close> is \<open>\d\<close>, \<open>Some c\<close> the character \<open>c\<close>.\<close>

fun test_prefix :: "char option list \<Rightarrow> string \<Rightarrow> bool" where
  "test_prefix [] s = True"
| "test_prefix (p # ps) [] = False"
| "test_prefix (p # ps) (c # cs) =
     ((case p of None \<Rightarrow> is_digit c | Some d \<Rightarrow> c = d) \<and> test_prefix ps cs)"

definition datePatterns :: "char option list list" where
  "datePatterns =
     [[None, None, None, None, Some (CHR ''-''), None, None, Some (CHR ''-''), None, None],
      [None, None, Some (CHR ''/''), None, None, Some (CHR ''/''), None, None, None, None]]"

fun looksLikeDate :: "jsval \<Rightarrow> bool" where
  "looksLikeDate (VStr s) = list_ex (\<lambda>pattern. test_prefix pattern s) datePatterns"
| "looksLikeDate v = False"

definition inferFieldType :: "jsval \<Rightarrow> field_type" where
  "inferFieldType v =
     (if v = VNull \<or> v = VUndefined then FString
      else if typeof v = ''number'' then FNumber
      else if typeof v = ''boolean'' then FBoolean
      else if isArray v then FArray
      else if typeof v = ''object'' then FObject
      else if typeof v = ''string'' \<and> looksLikeDate v then FDate
      else FString)"

text \<open>\<open>sampleData.some(item => item[key] === null || item[key] === undefined)\<close>:
  it stops at the first element that answers true.\<close>

fun some_nullish :: "host \<Rightarrow> string \<Rightarrow> jsval list \<Rightarrow> exn + bool" where
  "some_nullish H key [] = Inr False"
| "some_nullish H key (item # rest) =
     (case get_prop H item key of
        Inl e \<Rightarrow> Inl e
      | Inr v \<Rightarrow> if v = VNull \<or> v = VUndefined then Inr True else some_nullish H key rest)"

definition array_field :: "host \<Rightarrow> jsval list \<Rightarrow> string \<times> jsval \<Rightarrow> exn + InferredField" where
  "array_field H sampleData kv =
     (case some_nullish H (fst kv) sampleData of
        Inl e \<Rightarrow> Inl e
      | Inr n \<Rightarrow>
          (case map_result (\<lambda>item. get_prop H item (fst kv)) (take 5 sampleData) of
             Inl e \<Rightarrow> Inl e
           | Inr vs \<Rightarrow>
               Inr \<lparr>field_name = fst kv, field_type = inferFieldType (snd kv),
                    nullable = n, sampleValues = vs\<rparr>))"

definition object_field :: "string \<times> jsval \<Rightarrow> InferredField" where
  "object_field kv =
     \<lparr>field_name = fst kv, field_type = inferFieldType (snd kv),
      nullable = (snd kv = VNull \<or> snd kv = VUndefined), sampleValues = [snd kv]\<rparr>"

text \<open>The \<open>fields\<close> that \<open>inferSchema\<close> collects from \<open>sampleData\<close>.\<close>

definition infer_fields :: "host \<Rightarrow> jsval \<Rightarrow> exn + InferredField list" where
  "infer_fields H sampleData =
     (case sampleData of
        VArr (sample # others) \<Rightarrow>
          (if typeof sample = ''object'' \<and> sample \<noteq> VNull then
             (case object_entries sample of
                Inl e \<Rightarrow> Inl e
              | Inr entries \<Rightarrow> map_result (array_field H (sample # others)) entries)
           else Inr [])
      | VArr [] \<Rightarrow> Inr []
      | VObj ps \<Rightarrow> Inr (map object_field ps)
      | _ \<Rightarrow> Inr [])"

definition inferSchema :: "host \<Rightarrow> jsval \<Rightarrow> exn + InferredSchema" where
  "inferSchema H sampleData =
     (case infer_fields H sampleData of
        Inl e \<Rightarrow> Inl e
      | Inr fs \<Rightarrow>
          (let dateFields =
                 filter (\<lambda>f. field_type f = FString \<and> list_ex looksLikeDate (sampleValues f)) fs
           in Inr \<lparr>inferred_fields = fs,
                   confidence = js_min (Fin 1) (numberDivide H (Fin (real (length fs))) (Fin 10)),
                   suggestions =
                     (if fs = [] then [''Unable to infer schema from empty or invalid data''] else [])
                     @ (if dateFields \<noteq> []
                        then [''Consider adding date transforms for: ''
                                @ join '', '' (map field_name dateFields)]
                        else [])\<rparr>))"

section \<open>The adapter facade\<close>

record AdapterMetrics =
  requestsTotal :: nat
  requestsSuccess :: nat
  requestsFailed :: nat
  avgResponseTime :: jsnum
  totalBytesProcessed :: nat

text \<open>
  Metrics objects live in a store: a reference is a natural number, \<open>next_ref\<close> the
  first reference not yet allocated. An adapter holds the reference of its own
  metrics object, so that a copy and the original can be told apart.
\<close>

record store =
  objects :: "nat \<Rightarrow> AdapterMetrics"
  next_ref :: nat

definition alloc :: "AdapterMetrics \<Rightarrow> store \<Rightarrow> nat \<times> store" where
  "alloc m st = (next_ref st, \<lparr>objects = (objects st)(next_ref st := m), next_ref = Suc (next_ref st)\<rparr>)"

definition modify :: "nat \<Rightarrow> (AdapterMetrics \<Rightarrow> AdapterMetrics) \<Rightarrow> store \<Rightarrow> store" where
  "modify r f st = st\<lparr>objects := (objects st)(r := f (objects st r))\<rparr>"

definition getAcceptHeader :: "string \<Rightarrow> string" where
  "getAcceptHeader format =
     (if format = ''xml'' \<or> format = ''soap'' then ''application/xml, text/xml''
      else if format = ''csv'' then ''text/csv''
      else ''application/json'')"

record LegacySystemAdapter =
  config :: AdapterConfig
  policy :: RetryPolicy
  metrics :: nat
  client_timeout :: jsnum
  client_accept :: string

text \<open>The constructor: the default policy when none is configured, and all counters zero.\<close>

definition new_adapter :: "AdapterConfig \<Rightarrow> store \<Rightarrow> LegacySystemAdapter \<times> store" where
  "new_adapter cfg st =
     (let (r, st') = alloc \<lparr>requestsTotal = 0, requestsSuccess = 0, requestsFailed = 0,
                            avgResponseTime = Fin 0, totalBytesProcessed = 0\<rparr> st
      in (\<lparr>config = cfg,
           policy = (case retryPolicy cfg of Some p \<Rightarrow> p | None \<Rightarrow> defaultRetryPolicy),
           metrics = r,
           client_timeout = (case timeout cfg of
                               Some t \<Rightarrow> if t \<noteq> Fin 0 \<and> t \<noteq> NaN then t else Fin 30000
                             | None \<Rightarrow> Fin 30000),
           client_accept = getAcceptHeader (sourceFormat cfg)\<rparr>, st'))"

text \<open>\<open>getMetrics\<close>: the spread \<open>{ ...this.metrics }\<close> allocates a new object with the
  same fields and returns its reference.\<close>

definition getMetrics :: "LegacySystemAdapter \<Rightarrow> store \<Rightarrow> nat \<times> store" where
  "getMetrics A st = alloc (objects st (metrics A)) st"

subsection \<open>Requests and responses\<close>

datatype http_method = GET | POST | PUT | DELETE | PATCH

fun method_text :: "http_method \<Rightarrow> string" where
  "method_text GET = ''GET''"
| "method_text POST = ''POST''"
| "method_text PUT = ''PUT''"
| "method_text DELETE = ''DELETE''"
| "method_text PATCH = ''PATCH''"

record AdapterRequest =
  req_endpoint :: "string option"
  req_method :: http_method
  req_path :: "string option"
  req_headers :: "(string \<times> string) list option"
  req_body :: "jsval option"
  req_queryParams :: "(string \<times> string) list option"

text \<open>What \<open>executeWithRetry\<close> hands to \<open>httpClient.request\<close>.\<close>

record client_request =
  cr_method :: string
  cr_url :: "string option"
  cr_headers :: "(string \<times> string) list option"
  cr_data :: "jsval option"
  cr_params :: "(string \<times> string) list option"

record http_response =
  hr_data :: jsval
  hr_status :: int
  hr_headers :: "(string \<times> string) list"

definition client_request_of :: "LegacySystemAdapter \<Rightarrow> AdapterRequest \<Rightarrow> client_request" where
  "client_request_of A request =
     \<lparr>cr_method = toLowerCase (method_text (req_method request)),
      cr_url = (case req_endpoint request of
                  Some u \<Rightarrow> if u \<noteq> [] then Some u else endpoint (config A)
                | None \<Rightarrow> endpoint (config A)),
      cr_headers = req_headers request,
      cr_data = req_body request,
      cr_params = req_queryParams request\<rparr>"

text \<open>
  \<open>executeWithRetry\<close>: \<open>transport attempt r\<close> is the outcome of the call
  \<open>httpClient.request(r)\<close> made at that attempt.
\<close>

definition executeWithRetry ::
  "host \<Rightarrow> LegacySystemAdapter \<Rightarrow> (nat \<Rightarrow> client_request \<Rightarrow> exn + http_response)
     \<Rightarrow> AdapterRequest \<Rightarrow> event list \<times> (exn option + http_response)" where
  "executeWithRetry H A transport request =
     retry_loop H (policy A) (\<lambda>attempt. transport attempt (client_request_of A request))
       0 (initialDelayMs (policy A)) None"

datatype response_data = Transformed AdapterTransformResult | Untransformed jsval

record ResponseMetadata =
  duration :: int
  timestamp :: string
  adapter :: string

record AdapterResponse =
  success :: bool
  resp_data :: "response_data option"
  resp_error :: "string option"
  statusCode :: "int option"
  resp_headers :: "(string \<times> string) list option"
  metadata :: "ResponseMetadata option"

text \<open>The readings of the clock during one \<open>execute\<close>: \<open>Date.now()\<close> at the start and
  when the duration is taken, and the two texts of \<open>new Date().toISOString()\<close>.\<close>

record clock =
  startTime :: int
  endTime :: int
  transformStamp :: string
  responseStamp :: string

text \<open>
  The \<open>catch\<close> block of \<open>execute\<close>. \<open>thrown\<close> is the value caught, \<open>None\<close> for
  \<open>null\<close>; reading \<open>message\<close> of \<open>null\<close> throws a \<open>TypeError\<close> out of the block.
\<close>

definition on_catch ::
  "LegacySystemAdapter \<Rightarrow> clock \<Rightarrow> event list \<Rightarrow> exn option \<Rightarrow> store
     \<Rightarrow> event list \<times> (exn + AdapterResponse) \<times> store" where
  "on_catch A clk evs thrown st =
     (let st' = modify (metrics A) (\<lambda>m. m\<lparr>requestsFailed := requestsFailed m + 1\<rparr>) st;
          d = endTime clk - startTime clk
      in case thrown of
           None \<Rightarrow> (evs, Inl (TypeError ''Cannot read properties of null''), st')
         | Some err \<Rightarrow>
             (evs @ [LogError (message err) d],
              Inr \<lparr>success = False, resp_data = None, resp_error = Some (message err),
                   statusCode = None, resp_headers = None,
                   metadata = Some \<lparr>duration = d, timestamp = responseStamp clk,
                                     adapter = name (config A)\<rparr>\<rparr>,
              st'))"

text \<open>
  \<open>execute\<close>: the events, what the caller gets (\<open>Inl\<close> an exception that escapes,
  \<open>Inr\<close> the response returned) and the store afterwards. The counters, the
  duration and the success count are whole numbers, on which the runtime's
  subtraction is exact; the product, the sum and the quotient of the new average are
  the host's.
\<close>

definition execute ::
  "host \<Rightarrow> LegacySystemAdapter \<Rightarrow> (nat \<Rightarrow> client_request \<Rightarrow> exn + http_response) \<Rightarrow> clock
     \<Rightarrow> AdapterRequest \<Rightarrow> store \<Rightarrow> event list \<times> (exn + AdapterResponse) \<times> store" where
  "execute H A transport clk request st =
     (let st1 = modify (metrics A) (\<lambda>m. m\<lparr>requestsTotal := requestsTotal m + 1\<rparr>) st in
      case executeWithRetry H A transport request of
        (evs, Inl lastError) \<Rightarrow> on_catch A clk evs lastError st1
      | (evs, Inr result) \<Rightarrow>
          (case (if req_method request = GET then
                   (case transform H (config A) (transformStamp clk) (hr_data result)
                           (Some (targetFormat (config A))) of
                      Inl e \<Rightarrow> Inl e
                    | Inr t \<Rightarrow> Inr (Transformed t))
                 else Inr (Untransformed (hr_data result))) of
             Inl e \<Rightarrow> on_catch A clk evs (Some e) st1
           | Inr transformedData \<Rightarrow>
               (let st2 = modify (metrics A) (\<lambda>m. m\<lparr>requestsSuccess := requestsSuccess m + 1\<rparr>) st1;
                    d = endTime clk - startTime clk;
                    successCount = requestsSuccess (objects st2 (metrics A));
                    st3 = modify (metrics A)
                            (\<lambda>m. m\<lparr>avgResponseTime :=
                                     numberDivide H
                                       (numberPlus H
                                          (numberTimes H (avgResponseTime m) (Fin (real successCount - 1)))
                                          (Fin (real_of_int d)))
                                       (Fin (real successCount))\<rparr>) st2
                in (evs @ [LogInfo d (hr_status result)],
                    Inr \<lparr>success = True, resp_data = Some transformedData, resp_error = None,
                         statusCode = Some (hr_status result),
                         resp_headers = Some (hr_headers result),
                         metadata = Some \<lparr>duration = d, timestamp = responseStamp clk,
                                           adapter = name (config A)\<rparr>\<rparr>,
                    st3))))"

section \<open>Observations on a run\<close>

text \<open>The attempt indices at which the transport was called, and the delays slept, in order.\<close>

fun attempts_of :: "event list \<Rightarrow> nat list" where
  "attempts_of [] = []"
| "attempts_of (Attempt a # evs) = a # attempts_of evs"
| "attempts_of (ev # evs) = attempts_of evs"

fun sleeps_of :: "event list \<Rightarrow> jsnum list" where
  "sleeps_of [] = []"
| "sleeps_of (Sleep d # evs) = d # sleeps_of evs"
| "sleeps_of (ev # evs) = sleeps_of evs"

text \<open>
  The backoff sequence as the specification words it: it starts at the initial delay
  and each next delay is \<open>min(currentDelay * backoffMultiplier, maxDelay)\<close>, with
  the product and the minimum of the runtime.
\<close>

fun backoff_delay :: "host \<Rightarrow> RetryPolicy \<Rightarrow> nat \<Rightarrow> jsnum" where
  "backoff_delay H pol 0 = initialDelayMs pol"
| "backoff_delay H pol (Suc k) =
     js_min (numberTimes H (backoff_delay H pol k) (backoffMultiplier pol)) (maxDelayMs pol)"

text \<open>
  The events of a run whose attempts \<open>0, \<dots>, k - 1\<close> fail and are retried, up to
  the call of attempt \<open>k\<close>: each failed attempt is followed by its warning and by the
  sleep of its delay, and then comes the next attempt.
\<close>

definition retry_round :: "host \<Rightarrow> RetryPolicy \<Rightarrow> (nat \<Rightarrow> exn + 'r) \<Rightarrow> nat \<Rightarrow> event list" where
  "retry_round H pol op i =
     [Attempt i,
      LogWarn (i + 1) (case op i of Inl e \<Rightarrow> message e | Inr r \<Rightarrow> []) (backoff_delay H pol i),
      Sleep (backoff_delay H pol i)]"

definition retry_trace :: "host \<Rightarrow> RetryPolicy \<Rightarrow> (nat \<Rightarrow> exn + 'r) \<Rightarrow> nat \<Rightarrow> event list" where
  "retry_trace H pol op k = concat (map (retry_round H pol op) [0..<k]) @ [Attempt k]"

text \<open>A sequence of \<open>execute\<close> calls on one adapter, each with its own transport behaviour,
  clock readings and request; the store is threaded through.\<close>

fun execute_all ::
  "host \<Rightarrow> LegacySystemAdapter
     \<Rightarrow> ((nat \<Rightarrow> client_request \<Rightarrow> exn + http_response) \<times> clock \<times> AdapterRequest) list
     \<Rightarrow> store \<Rightarrow> store" where
  "execute_all H A [] st = st"
| "execute_all H A (c # cs) st =
     execute_all H A cs (snd (snd (execute H A (fst c) (fst (snd c)) (snd (snd c)) st)))"

text \<open>
  The object that \<open>mapFields\<close> builds from a structured object with the own
  properties \<open>ps\<close>: for each entry of the mapping in turn, when the source field is a
  key of \<open>ps\<close> its value is stored under the target name.
\<close>

fun select_fields ::
  "(string \<times> jsval) list \<Rightarrow> (string \<times> string) list \<Rightarrow> (string \<times> jsval) list \<Rightarrow> (string \<times> jsval) list" where
  "select_fields ps [] acc = acc"
| "select_fields ps (st # rest) acc =
     select_fields ps rest
       (if fst st \<in> set (map fst ps) then obj_set acc (snd st) (obj_get ps (fst st)) else acc)"

text \<open>
  A flat record whose values are all text, as a structured value; and the same record
  with every value replaced by its JSON string literal.
\<close>

definition text_record :: "(string \<times> string) list \<Rightarrow> jsval" where
  "text_record r = VObj (map (\<lambda>kv. (fst kv, VStr (snd kv))) r)"

definition quoted_record :: "(string \<times> string) list \<Rightarrow> (string \<times> jsval) list" where
  "quoted_record r = map (\<lambda>kv. (fst kv, VStr (json_quote (snd kv)))) r"

text \<open>The text of a record at a field name, empty when the record has no such field.\<close>

definition field_text :: "(string \<times> string) list \<Rightarrow> string \<Rightarrow> string" where
  "field_text r k = (case map_of r k of Some v \<Rightarrow> v | None \<Rightarrow> [])"

text \<open>
  The type of a sample value as the specification words it, in priority order:
  \<open>null\<close> and \<open>undefined\<close> are typed as text; then come number, boolean, array and
  object; a text that starts like a date (four digits, a hyphen, two digits, a hyphen,
  two digits; or two digits, a slash, two digits, a slash, four digits) is a date;
  anything else is text.
\<close>

definition decimal :: "char \<Rightarrow> bool" where
  "decimal c = (c \<in> set ''0123456789'')"

fun date_like :: "string \<Rightarrow> bool" where
  "date_like (a # b # c # d # e # f # g # h # i # j # rest) =
     (decimal a \<and> decimal b \<and> decimal c \<and> decimal d \<and> e = CHR ''-''
        \<and> decimal f \<and> decimal g \<and> h = CHR ''-'' \<and> decimal i \<and> decimal j
      \<or> decimal a \<and> decimal b \<and> c = CHR ''/'' \<and> decimal d \<and> decimal e \<and> f = CHR ''/''
        \<and> decimal g \<and> decimal h \<and> decimal i \<and> decimal j)"
| "date_like s = False"

fun type_of_sample :: "jsval \<Rightarrow> field_type" where
  "type_of_sample VNull = FString"
| "type_of_sample VUndefined = FString"
| "type_of_sample (VNum n) = FNumber"
| "type_of_sample (VBool b) = FBoolean"
| "type_of_sample (VArr xs) = FArray"
| "type_of_sample (VObj ps) = FObject"
| "type_of_sample (VStr s) = (if date_like s then FDate else FString)"
| "type_of_sample (VBuiltin n) = FString"

section \<open>Concrete inputs\<close>

definition A0 :: LegacySystemAdapter where
  "A0 = \<lparr>config = \<lparr>name = ''legacy'', sourceFormat = ''json'', targetFormat = ''json'',
                   schemaMapping = None, endpoint = Some ''http://host/api'', timeout = None,
                   retryPolicy = None\<rparr>,
         policy = \<lparr>maxRetries = 2, initialDelayMs = Fin 1000, maxDelayMs = Fin 10000,
                   backoffMultiplier = Fin 2\<rparr>,
         metrics = 0, client_timeout = Fin 30000, client_accept = ''application/json''\<rparr>"

definition R0 :: AdapterRequest where
  "R0 = \<lparr>req_endpoint = None, req_method = GET, req_path = None, req_headers = None,
         req_body = None, req_queryParams = None\<rparr>"

definition T_down :: "nat \<Rightarrow> client_request \<Rightarrow> exn + http_response" where
  "T_down i r = Inl (TransportError (''down '' @ show_nat i))"

definition A6 :: LegacySystemAdapter where
  "A6 = A0\<lparr>policy := \<lparr>maxRetries = 6, initialDelayMs = Fin 1000, maxDelayMs = Fin 10000,
                       backoffMultiplier = Fin 2\<rparr>\<rparr>"

text \<open>
  The members that every object inherits from \<open>Object.prototype\<close>: the functions, the
  constructor of the value's kind, and the accessor \<open>__proto__\<close>, whose getter
  returns the prototype, an object without enumerable properties.
\<close>

definition object_prototype_functions :: "string list" where
  "object_prototype_functions =
     [''hasOwnProperty'', ''isPrototypeOf'', ''propertyIsEnumerable'', ''toLocaleString'',
      ''toString'', ''valueOf'', ''__defineGetter__'', ''__defineSetter__'',
      ''__lookupGetter__'', ''__lookupSetter__'']"

fun constructor_name :: "jsval \<Rightarrow> string" where
  "constructor_name (VArr xs) = ''Array''"
| "constructor_name (VStr s) = ''String''"
| "constructor_name (VNum n) = ''Number''"
| "constructor_name (VBool b) = ''Boolean''"
| "constructor_name (VBuiltin n) = ''Function''"
| "constructor_name v = ''Object''"

fun prototype_of :: "jsval \<Rightarrow> jsval" where
  "prototype_of (VArr xs) = VArr []"
| "prototype_of (VBuiltin n) = VBuiltin []"
| "prototype_of v = VObj []"

definition standard_member :: "jsval \<Rightarrow> string \<Rightarrow> jsval option" where
  "standard_member v k =
     (if k = ''constructor'' then Some (VBuiltin (constructor_name v))
      else if k = ''__proto__'' then Some (prototype_of v)
      else if k \<in> set object_prototype_functions then Some (VBuiltin k)
      else None)"

text \<open>Arithmetic that is exact on finite numbers, as double-precision arithmetic is
  on the whole numbers of the runs below; on any other operands it answers \<open>NaN\<close>.\<close>

definition exact_op :: "(real \<Rightarrow> real \<Rightarrow> real) \<Rightarrow> jsnum \<Rightarrow> jsnum \<Rightarrow> jsnum" where
  "exact_op f x y = (case x of Fin a \<Rightarrow> (case y of Fin b \<Rightarrow> Fin (f a b) | _ \<Rightarrow> NaN) | _ \<Rightarrow> NaN)"

text \<open>
  A host for the concrete runs of this theory. Its XML functions reject every input,
  it converts natural numbers only, and its date parser knows two ISO dates; the
  runs below use it on those inputs and on text that no date parser accepts. A value
  inherits the members of \<open>Object.prototype\<close>.
\<close>

definition example_host :: host where
  "example_host =
     \<lparr>parseStringPromise = (\<lambda>s. Inl (CodecError ''Non-whitespace before first tag.'')),
      buildObject = (\<lambda>v. Inl (CodecError ''Unsupported value'')),
      numberToString = (\<lambda>r. show_nat (nat \<lfloor>r\<rfloor>)),
      stringToNumber = (\<lambda>s. if trim s = [] then Fin 0
                            else if list_all is_digit (trim s) then Fin (real (dec_value (trim s)))
                            else NaN),
      dateParse = (\<lambda>s. if s = ''1970-01-01'' then Some 0
                       else if s = ''2024-01-15'' then Some 1705276800000
                       else None),
      isoFormat = (\<lambda>t. if t = 1705276800000 then ''2024-01-15T00:00:00.000Z''
                       else ''1970-01-01T00:00:00.000Z''),
      member = standard_member,
      numberTimes = exact_op (\<lambda>a b. a * b),
      numberPlus = exact_op (\<lambda>a b. a + b),
      numberDivide = (\<lambda>x y. if y = Fin 0 then NaN else exact_op (\<lambda>a b. a / b) x y)\<rparr>"

definition K0 :: clock where
  "K0 = \<lparr>startTime = 1000, endTime = 1250, transformStamp = ''2024-01-15T00:00:01.200Z'',
         responseStamp = ''2024-01-15T00:00:01.250Z''\<rparr>"

definition zero_metrics :: AdapterMetrics where
  "zero_metrics = \<lparr>requestsTotal = 0, requestsSuccess = 0, requestsFailed = 0,
                    avgResponseTime = Fin 0, totalBytesProcessed = 0\<rparr>"

definition S0 :: store where
  "S0 = \<lparr>objects = (\<lambda>r. zero_metrics), next_ref = 1\<rparr>"

definition T_ok :: "nat \<Rightarrow> client_request \<Rightarrow> exn + http_response" where
  "T_ok i r = (if i < 1 then Inl (TransportError ''timeout'')
              else Inr \<lparr>hr_data = VObj [(''a'', VNum (Fin 1))], hr_status = 200, hr_headers = []\<rparr>)"

definition cfg0 :: AdapterConfig where
  "cfg0 = \<lparr>name = ''legacy'', sourceFormat = ''json'', targetFormat = ''json'',
           schemaMapping = None, endpoint = Some ''http://host/api'', timeout = None,
           retryPolicy = None\<rparr>"


definition cfg_map :: AdapterConfig where
  "cfg_map = cfg0\<lparr>schemaMapping :=
       Some \<lparr>sourceFields = Some [(''a'', ''x''), (''b'', ''y'')], transforms = None\<rparr>\<rparr>"

definition cfg_inherited :: AdapterConfig where
  "cfg_inherited = cfg0\<lparr>schemaMapping :=
       Some \<lparr>sourceFields = Some [(''toString'', ''x''), (''a'', ''__proto__'')], transforms = None\<rparr>\<rparr>"

definition rules0 :: "FieldTransform list" where
  "rules0 =
     [\<lparr>sourceField = ''name'', targetField = ''name'', transformType = TUppercase, transformFn = None\<rparr>,
      \<lparr>sourceField = ''age'', targetField = ''years'', transformType = TNumber, transformFn = None\<rparr>]"




definition row1 :: "(string \<times> string) list" where
  "row1 = [(''a'', ''1''), (''b'', ''2'')]"

definition row2 :: "(string \<times> string) list" where
  "row2 = [(''b'', ''x y''), (''a'', ''z'')]"

definition cfg_csv :: AdapterConfig where
  "cfg_csv = cfg0\<lparr>sourceFormat := ''csv'',
       schemaMapping := Some \<lparr>sourceFields = Some [(''a'', ''x''), (''b'', ''y'')], transforms = Some rules0\<rparr>\<rparr>"

definition A_neg :: LegacySystemAdapter where
  "A_neg = A0\<lparr>policy := \<lparr>maxRetries = -1, initialDelayMs = Fin 1000, maxDelayMs = Fin 10000,
                          backoffMultiplier = Fin 2\<rparr>\<rparr>"

definition R_post :: AdapterRequest where
  "R_post = R0\<lparr>req_method := POST\<rparr>"

definition A_once :: LegacySystemAdapter where
  "A_once = A0\<lparr>policy := \<lparr>maxRetries = 0, initialDelayMs = Fin 1000, maxDelayMs = Fin 10000,
                           backoffMultiplier = Fin 2\<rparr>\<rparr>"

section \<open>The retry executor: properties\<close>

declare retry_loop.simps [simp del]

lemma attempts_of_emit:
  "attempts_of (fst (emit evs p)) = attempts_of evs @ attempts_of (fst p)"
  by (cases p) (induction evs rule: attempts_of.induct, auto)

lemma snd_emit: "snd (emit evs p) = snd p"
  by (cases p) simp

lemma fst_emit: "fst (emit evs p) = evs @ fst p"
  by (cases p) simp

lemma retry_loop_all_fail:
  "int a \<le> maxRetries pol \<Longrightarrow> (\<forall>i. a \<le> i \<and> int i \<le> maxRetries pol \<longrightarrow> isl (op i)) \<Longrightarrow>
     attempts_of (fst (retry_loop H pol op a d e)) = [a..<nat (maxRetries pol) + 1]
     \<and> (\<exists>err. op (nat (maxRetries pol)) = Inl err \<and> snd (retry_loop H pol op a d e) = Inl (Some err))"
proof (induction H pol op a d e rule: retry_loop.induct)
  case (1 H pol op attempt delay lastError)
  from "1.prems" obtain err where err: "op attempt = Inl err"
    by (metis isl_def order_refl)
  show ?case
  proof (cases "int attempt < maxRetries pol")
    case True
    then have le: "int (Suc attempt) \<le> maxRetries pol" by simp
    have fails: "\<forall>i. Suc attempt \<le> i \<and> int i \<le> maxRetries pol \<longrightarrow> isl (op i)"
      using "1.prems"(2) by auto
    note IH = "1.IH"(1)[OF "1.prems"(1) err True le fails]
    have "attempt < nat (maxRetries pol) + 1" using True by linarith
    then have upt: "[attempt..<nat (maxRetries pol) + 1] = attempt # [Suc attempt..<nat (maxRetries pol) + 1]"
      by (simp only: upt_conv_Cons)
    show ?thesis
      using IH True "1.prems"(1) err upt
      by (subst (1 2) retry_loop.simps) (simp add: attempts_of_emit snd_emit)
  next
    case False
    with "1.prems"(1) have eq: "int attempt = maxRetries pol" by simp
    then have n: "nat (maxRetries pol) = attempt" by simp
    have stop: "retry_loop H pol op (Suc attempt) delay (Some err) = ([], Inl (Some err))"
      using eq by (subst retry_loop.simps) simp
    show ?thesis
      using eq err stop n
      by (subst (1 2) retry_loop.simps) (simp add: attempts_of_emit snd_emit)
  qed
qed

lemma retry_loop_success:
  "a \<le> k \<Longrightarrow> int k \<le> maxRetries pol \<Longrightarrow> (\<forall>i. a \<le> i \<and> i < k \<longrightarrow> isl (op i)) \<Longrightarrow> op k = Inr r \<Longrightarrow>
     attempts_of (fst (retry_loop H pol op a d e)) = [a..<k + 1]
     \<and> snd (retry_loop H pol op a d e) = Inr r"
proof (induction H pol op a d e rule: retry_loop.induct)
  case (1 H pol op attempt delay lastError)
  show ?case
  proof (cases "attempt = k")
    case True
    then show ?thesis using "1.prems"
      by (subst (1 2) retry_loop.simps) simp
  next
    case False
    with "1.prems" have lt: "attempt < k" by simp
    then obtain err where err: "op attempt = Inl err"
      using "1.prems"(3) by (metis isl_def order_refl)
    have le: "int attempt \<le> maxRetries pol" and lt': "int attempt < maxRetries pol"
      using lt "1.prems"(2) by simp_all
    have fails: "\<forall>i. Suc attempt \<le> i \<and> i < k \<longrightarrow> isl (op i)"
      using "1.prems"(3) by auto
    have sk: "Suc attempt \<le> k" using lt by simp
    note IH = "1.IH"(1)[OF le err lt' sk "1.prems"(2) fails "1.prems"(4)]
    have upt: "[attempt..<k + 1] = attempt # [Suc attempt..<k + 1]"
      using lt by (simp add: upt_conv_Cons)
    show ?thesis
      using IH le lt' err upt
      by (subst (1 2) retry_loop.simps) (simp add: attempts_of_emit snd_emit)
  qed
qed

lemma sleeps_of_emit:
  "sleeps_of (fst (emit evs p)) = sleeps_of evs @ sleeps_of (fst p)"
  by (cases p) (induction evs rule: sleeps_of.induct, auto)

lemma sleeps_of_append: "sleeps_of (xs @ ys) = sleeps_of xs @ sleeps_of ys"
  by (induction xs rule: sleeps_of.induct) auto

lemma sleeps_of_rounds:
  "sleeps_of (concat (map (retry_round H pol op) ks)) = map (backoff_delay H pol) ks"
  by (induction ks) (simp_all add: sleeps_of_append retry_round_def)

lemma sleeps_of_retry_trace:
  "sleeps_of (retry_trace H pol op k) = map (backoff_delay H pol) [0..<k]"
  by (simp add: retry_trace_def sleeps_of_append sleeps_of_rounds)

lemma retry_loop_sleeps:
  "d = backoff_delay H pol a \<Longrightarrow>
     sleeps_of (fst (retry_loop H pol op a d e))
       = map (backoff_delay H pol) [a..<a + length (sleeps_of (fst (retry_loop H pol op a d e)))]"
proof (induction H pol op a d e rule: retry_loop.induct)
  case (1 H pol op attempt delay lastError)
  show ?case
  proof (cases "int attempt \<le> maxRetries pol")
    case False
    then show ?thesis by (subst (1 2) retry_loop.simps) simp
  next
    case le: True
    show ?thesis
    proof (cases "op attempt")
      case (Inr r)
      with le show ?thesis by (subst (1 2) retry_loop.simps) simp
    next
      case (Inl err)
      show ?thesis
      proof (cases "int attempt < maxRetries pol")
        case True
        let ?d' = "js_min (numberTimes H delay (backoffMultiplier pol)) (maxDelayMs pol)"
        have d': "?d' = backoff_delay H pol (Suc attempt)"
          using "1.prems" by simp
        note IH = "1.IH"(1)[OF le Inl True d']
        let ?rest = "retry_loop H pol op (Suc attempt) ?d' (Some err)"
        have unfold: "sleeps_of (fst (retry_loop H pol op attempt delay lastError))
                        = delay # sleeps_of (fst ?rest)"
          using le Inl True by (subst retry_loop.simps) (simp add: sleeps_of_emit)
        have upt: "[attempt..<attempt + Suc (length (sleeps_of (fst ?rest)))]
                = attempt # [Suc attempt..<Suc attempt + length (sleeps_of (fst ?rest))]"
          by (subst upt_rec) simp
        have "map (backoff_delay H pol) [attempt..<attempt + length (delay # sleeps_of (fst ?rest))]
                = backoff_delay H pol attempt
                    # map (backoff_delay H pol) [Suc attempt..<Suc attempt + length (sleeps_of (fst ?rest))]"
          using upt by simp
        also have "\<dots> = delay # sleeps_of (fst ?rest)"
          using IH[symmetric] "1.prems" by simp
        finally show ?thesis
          unfolding unfold by simp
      next
        case False
        with le have eq: "int attempt = maxRetries pol" by simp
        have stop: "retry_loop H pol op (Suc attempt) delay (Some err) = ([], Inl (Some err))"
          using eq by (subst retry_loop.simps) simp
        show ?thesis
          using eq Inl stop by (subst (1 2) retry_loop.simps) (simp add: sleeps_of_emit)
      qed
    qed
  qed
qed

lemma retry_loop_trace_fail:
  "int a \<le> maxRetries pol \<Longrightarrow> (\<forall>i. a \<le> i \<and> int i \<le> maxRetries pol \<longrightarrow> isl (op i)) \<Longrightarrow>
   d = backoff_delay H pol a \<Longrightarrow>
     fst (retry_loop H pol op a d e)
       = concat (map (retry_round H pol op) [a..<nat (maxRetries pol)]) @ [Attempt (nat (maxRetries pol))]"
proof (induction H pol op a d e rule: retry_loop.induct)
  case (1 H pol op attempt delay lastError)
  from "1.prems" obtain err where err: "op attempt = Inl err"
    by (metis isl_def order_refl)
  show ?case
  proof (cases "int attempt < maxRetries pol")
    case True
    let ?d' = "js_min (numberTimes H delay (backoffMultiplier pol)) (maxDelayMs pol)"
    have le: "int (Suc attempt) \<le> maxRetries pol" using True by simp
    have fails: "\<forall>i. Suc attempt \<le> i \<and> int i \<le> maxRetries pol \<longrightarrow> isl (op i)"
      using "1.prems"(2) by auto
    have d': "?d' = backoff_delay H pol (Suc attempt)"
      using "1.prems"(3) by simp
    note IH = "1.IH"(1)[OF "1.prems"(1) err True le fails d']
    have "attempt < nat (maxRetries pol)" using True by linarith
    then have upt: "[attempt..<nat (maxRetries pol)] = attempt # [Suc attempt..<nat (maxRetries pol)]"
      by (simp only: upt_conv_Cons)
    have round: "retry_round H pol op attempt
                   = [Attempt attempt, LogWarn (attempt + 1) (message err) delay, Sleep delay]"
      using err "1.prems"(3) by (simp add: retry_round_def)
    have "fst (retry_loop H pol op attempt delay lastError)
            = [Attempt attempt, LogWarn (attempt + 1) (message err) delay, Sleep delay]
                @ fst (retry_loop H pol op (Suc attempt) ?d' (Some err))"
      using True "1.prems"(1) err by (subst retry_loop.simps) (simp add: fst_emit)
    then show ?thesis
      unfolding IH upt using round by simp
  next
    case False
    with "1.prems"(1) have eq: "int attempt = maxRetries pol" by simp
    then have n: "nat (maxRetries pol) = attempt" by simp
    have stop: "retry_loop H pol op (Suc attempt) delay (Some err) = ([], Inl (Some err))"
      using eq by (subst retry_loop.simps) simp
    show ?thesis
      using eq err stop n
      by (subst retry_loop.simps) (simp add: fst_emit)
  qed
qed

lemma retry_loop_trace_success:
  "a \<le> k \<Longrightarrow> int k \<le> maxRetries pol \<Longrightarrow> (\<forall>i. a \<le> i \<and> i < k \<longrightarrow> isl (op i)) \<Longrightarrow> op k = Inr r \<Longrightarrow>
   d = backoff_delay H pol a \<Longrightarrow>
     fst (retry_loop H pol op a d e) = concat (map (retry_round H pol op) [a..<k]) @ [Attempt k]"
proof (induction H pol op a d e rule: retry_loop.induct)
  case (1 H pol op attempt delay lastError)
  show ?case
  proof (cases "attempt = k")
    case True
    then show ?thesis using "1.prems"
      by (subst retry_loop.simps) simp
  next
    case False
    with "1.prems" have lt: "attempt < k" by simp
    then obtain err where err: "op attempt = Inl err"
      using "1.prems"(3) by (metis isl_def order_refl)
    let ?d' = "js_min (numberTimes H delay (backoffMultiplier pol)) (maxDelayMs pol)"
    have le: "int attempt \<le> maxRetries pol" and lt': "int attempt < maxRetries pol"
      using lt "1.prems"(2) by simp_all
    have fails: "\<forall>i. Suc attempt \<le> i \<and> i < k \<longrightarrow> isl (op i)"
      using "1.prems"(3) by auto
    have sk: "Suc attempt \<le> k" using lt by simp
    have d': "?d' = backoff_delay H pol (Suc attempt)"
      using "1.prems"(5) by simp
    note IH = "1.IH"(1)[OF le err lt' sk "1.prems"(2) fails "1.prems"(4) d']
    have upt: "[attempt..<k] = attempt # [Suc attempt..<k]"
      using lt by (simp add: upt_conv_Cons)
    have round: "retry_round H pol op attempt
                   = [Attempt attempt, LogWarn (attempt + 1) (message err) delay, Sleep delay]"
      using err "1.prems"(5) by (simp add: retry_round_def)
    have "fst (retry_loop H pol op attempt delay lastError)
            = [Attempt attempt, LogWarn (attempt + 1) (message err) delay, Sleep delay]
                @ fst (retry_loop H pol op (Suc attempt) ?d' (Some err))"
      using le lt' err by (subst retry_loop.simps) (simp add: fst_emit)
    then show ?thesis
      unfolding IH upt using round by simp
  qed
qed

text \<open>
  The delays of a policy with a positive initial delay below the cap, on a runtime
  whose product of each positive delay of the sequence and the multiplier is not below
  that delay: every delay is a finite positive number within the cap, and the next
  one is not smaller.
\<close>

lemma backoff_delay_bounds:
  assumes "initialDelayMs pol = Fin i" "maxDelayMs pol = Fin M" "backoffMultiplier pol = Fin m"
    and "0 < i" "i \<le> M"
    and "\<forall>k d. backoff_delay H pol k = Fin d \<and> 0 < d \<longrightarrow>
            numberTimes H (Fin d) (Fin m) = PosInf
            \<or> (\<exists>p. numberTimes H (Fin d) (Fin m) = Fin p \<and> d \<le> p)"
  shows "\<exists>r. backoff_delay H pol k = Fin r \<and> 0 < r \<and> r \<le> M"
proof (induction k)
  case 0
  then show ?case using assms by simp
next
  case (Suc k)
  then obtain r where r: "backoff_delay H pol k = Fin r" "0 < r" "r \<le> M" by blast
  from assms(6) r(1,2)
  have "numberTimes H (Fin r) (Fin m) = PosInf
          \<or> (\<exists>p. numberTimes H (Fin r) (Fin m) = Fin p \<and> r \<le> p)" by blast
  then show ?case
  proof
    assume "numberTimes H (Fin r) (Fin m) = PosInf"
    then have "backoff_delay H pol (Suc k) = Fin M"
      using r(1) assms(2,3) by simp
    then show ?thesis using r(2,3) by simp
  next
    assume "\<exists>p. numberTimes H (Fin r) (Fin m) = Fin p \<and> r \<le> p"
    then obtain p where p: "numberTimes H (Fin r) (Fin m) = Fin p" "r \<le> p" by blast
    then have "backoff_delay H pol (Suc k) = Fin (min p M)"
      using r(1) assms(2,3) by simp
    then show ?thesis using r(2,3) p(2) by simp
  qed
qed

lemma backoff_delay_step:
  assumes "initialDelayMs pol = Fin i" "maxDelayMs pol = Fin M" "backoffMultiplier pol = Fin m"
    and "0 < i" "i \<le> M"
    and "\<forall>k d. backoff_delay H pol k = Fin d \<and> 0 < d \<longrightarrow>
            numberTimes H (Fin d) (Fin m) = PosInf
            \<or> (\<exists>p. numberTimes H (Fin d) (Fin m) = Fin p \<and> d \<le> p)"
    and "backoff_delay H pol k = Fin r" and "backoff_delay H pol (Suc k) = Fin r'"
  shows "r \<le> r'"
proof -
  from backoff_delay_bounds[OF assms(1-6), of k] assms(7) have r: "0 < r" "r \<le> M" by simp_all
  from assms(6) assms(7) r(1)
  have "numberTimes H (Fin r) (Fin m) = PosInf
          \<or> (\<exists>p. numberTimes H (Fin r) (Fin m) = Fin p \<and> r \<le> p)" by blast
  then show ?thesis
  proof
    assume "numberTimes H (Fin r) (Fin m) = PosInf"
    then have "backoff_delay H pol (Suc k) = Fin M"
      using assms(2,3,7) by simp
    then show ?thesis using r(2) assms(8) by simp
  next
    assume "\<exists>p. numberTimes H (Fin r) (Fin m) = Fin p \<and> r \<le> p"
    then obtain p where p: "numberTimes H (Fin r) (Fin m) = Fin p" "r \<le> p" by blast
    then have "backoff_delay H pol (Suc k) = Fin (min p M)"
      using assms(2,3,7) by simp
    then show ?thesis using r(2) p(2) assms(8) by simp
  qed
qed

lemma backoff_delay_sorted:
  assumes "initialDelayMs pol = Fin i" "maxDelayMs pol = Fin M" "backoffMultiplier pol = Fin m"
    and "0 < i" "i \<le> M"
    and "\<forall>k d. backoff_delay H pol k = Fin d \<and> 0 < d \<longrightarrow>
            numberTimes H (Fin d) (Fin m) = PosInf
            \<or> (\<exists>p. numberTimes H (Fin d) (Fin m) = Fin p \<and> d \<le> p)"
  shows "\<exists>ds. map (backoff_delay H pol) [0..<n] = map Fin ds \<and> sorted ds
            \<and> (\<forall>d \<in> set ds. 0 < d \<and> d \<le> M)"
proof -
  from backoff_delay_bounds[OF assms]
  have "\<forall>k. \<exists>r. backoff_delay H pol k = Fin r \<and> 0 < r \<and> r \<le> M" by blast
  then obtain f where f: "\<And>k. backoff_delay H pol k = Fin (f k)" "\<And>k. 0 < f k" "\<And>k. f k \<le> M"
    by metis
  have step: "f k \<le> f (Suc k)" for k
    by (rule backoff_delay_step[OF assms f(1) f(1)])
  have mono: "f a \<le> f b" if "a \<le> b" for a b
    using that
  proof (induction b)
    case 0
    then show ?case by simp
  next
    case (Suc b)
    show ?case
    proof (cases "a = Suc b")
      case True
      then show ?thesis by simp
    next
      case False
      with Suc.prems have "a \<le> b" by simp
      from Suc.IH[OF this] step[of b] show ?thesis by linarith
    qed
  qed
  have 1: "map (backoff_delay H pol) [0..<n] = map Fin (map f [0..<n])"
    by (simp add: f(1))
  have 2: "sorted (map f [0..<n])"
    by (simp add: sorted_map sorted_wrt_iff_nth_less mono)
  have 3: "\<forall>d \<in> set (map f [0..<n]). 0 < d \<and> d \<le> M"
    using f(2,3) by auto
  from 1 2 3 show ?thesis by blast
qed

text \<open>
  Claim C1. With \<open>maxRetries = n \<ge> 0\<close>: when the transport fails at every attempt,
  \<open>executeWithRetry\<close> calls it at the attempt indices \<open>0, \<dots>, n\<close>, once each and in
  this order, and throws the error of the last call; when the call at index \<open>k\<close> is the
  first to succeed, the calls are those at \<open>0, \<dots>, k\<close> and the response of call \<open>k\<close>
  is returned; with \<open>maxRetries = 0\<close> there is exactly one call.
\<close>

theorem executeWithRetry_attempts:
  assumes "0 \<le> maxRetries (policy A)"
  shows "((\<forall>i. int i \<le> maxRetries (policy A) \<longrightarrow> isl (transport i (client_request_of A request))) \<longrightarrow>
            attempts_of (fst (executeWithRetry H A transport request)) = [0..<nat (maxRetries (policy A)) + 1]
            \<and> (\<exists>err. transport (nat (maxRetries (policy A))) (client_request_of A request) = Inl err
                  \<and> snd (executeWithRetry H A transport request) = Inl (Some err)))
       \<and> (\<forall>k r. int k \<le> maxRetries (policy A)
               \<and> (\<forall>i<k. isl (transport i (client_request_of A request)))
               \<and> transport k (client_request_of A request) = Inr r \<longrightarrow>
            attempts_of (fst (executeWithRetry H A transport request)) = [0..<k + 1]
            \<and> snd (executeWithRetry H A transport request) = Inr r)
       \<and> (maxRetries (policy A) = 0 \<longrightarrow> attempts_of (fst (executeWithRetry H A transport request)) = [0])"
proof -
  let ?op = "\<lambda>attempt. transport attempt (client_request_of A request)"
  let ?run = "retry_loop H (policy A) ?op 0 (initialDelayMs (policy A)) None"
  have run: "executeWithRetry H A transport request = ?run"
    by (simp add: executeWithRetry_def)
  have le0: "int 0 \<le> maxRetries (policy A)" using assms by simp
  have fail: "attempts_of (fst ?run) = [0..<nat (maxRetries (policy A)) + 1]
      \<and> (\<exists>err. ?op (nat (maxRetries (policy A))) = Inl err \<and> snd ?run = Inl (Some err))"
    if "\<forall>i. int i \<le> maxRetries (policy A) \<longrightarrow> isl (?op i)"
    using retry_loop_all_fail[OF le0, of ?op] that by simp
  have succ: "attempts_of (fst ?run) = [0..<k + 1] \<and> snd ?run = Inr r"
    if "int k \<le> maxRetries (policy A)" "\<forall>i<k. isl (?op i)" "?op k = Inr r" for k r
    using retry_loop_success[of 0 k "policy A" ?op r] that by simp
  have one: "attempts_of (fst ?run) = [0]" if z: "maxRetries (policy A) = 0"
  proof (cases "?op 0")
    case (Inl err)
    have "\<forall>i. int i \<le> maxRetries (policy A) \<longrightarrow> isl (?op i)"
      using z Inl by (simp add: isl_def)
    from fail[OF this] z show ?thesis by simp
  next
    case (Inr r)
    have "int 0 \<le> maxRetries (policy A)" using z by simp
    from succ[OF this _ Inr] show ?thesis by simp
  qed
  show ?thesis
    unfolding run using fail succ one by blast
qed

theorem executeWithRetry_attempts_witness:
  "0 \<le> maxRetries (policy A0)
   \<and> attempts_of (fst (executeWithRetry example_host A0 T_down R0)) = [0, 1, 2]
   \<and> snd (executeWithRetry example_host A0 T_down R0) = Inl (Some (TransportError ''down 2''))
   \<and> attempts_of (fst (executeWithRetry example_host A0 T_ok R0)) = [0, 1]
   \<and> snd (executeWithRetry example_host A0 T_ok R0)
       = Inr \<lparr>hr_data = VObj [(''a'', VNum (Fin 1))], hr_status = 200, hr_headers = []\<rparr>
   \<and> maxRetries (policy A_once) = 0
   \<and> attempts_of (fst (executeWithRetry example_host A_once T_down R0)) = [0]
   \<and> snd (executeWithRetry example_host A_once T_down R0) = Inl (Some (TransportError ''down 0''))"
proof -
  have fails: "\<forall>i. isl (T_down i (client_request_of A R0))" for A
    by (simp add: T_down_def)
  have ok: "int 1 \<le> maxRetries (policy A0) \<and> (\<forall>i<1. isl (T_ok i (client_request_of A0 R0)))
      \<and> T_ok 1 (client_request_of A0 R0)
          = Inr \<lparr>hr_data = VObj [(''a'', VNum (Fin 1))], hr_status = 200, hr_headers = []\<rparr>"
    by (simp add: T_ok_def A0_def)
  have p0: "0 \<le> maxRetries (policy A0)" by (simp add: A0_def)
  have p1: "0 \<le> maxRetries (policy A_once)" "maxRetries (policy A_once) = 0"
    by (simp_all add: A_once_def)
  note all_fail = executeWithRetry_attempts[OF p0, where transport = T_down and request = R0 and H = example_host, THEN conjunct1, rule_format, OF fails[rule_format]]
  note success = executeWithRetry_attempts[OF p0, where transport = T_ok and request = R0 and H = example_host, THEN conjunct2, THEN conjunct1, rule_format, OF ok]
  note once = executeWithRetry_attempts[OF p1(1), where transport = T_down and request = R0 and H = example_host]
  have last_error: "snd (executeWithRetry example_host A0 T_down R0) = Inl (Some (TransportError ''down 2''))"
    using all_fail by (auto simp: T_down_def A0_def digit_char_def)
  have once_error: "snd (executeWithRetry example_host A_once T_down R0) = Inl (Some (TransportError ''down 0''))"
    using once fails[of A_once] p1(2) by (auto simp: T_down_def digit_char_def)
  have three: "[0..<nat (maxRetries (policy A0)) + 1] = [0, 1, 2]"
    by (simp add: A0_def upt_rec)
  show ?thesis
    using all_fail success once p0 p1(2) last_error once_error three
    by (simp add: upt_rec)
qed

lemma backoff_example:
  assumes "initialDelayMs pol = Fin 1000" "maxDelayMs pol = Fin 10000" "backoffMultiplier pol = Fin 2"
    and "list_all (\<lambda>d. numberTimes H (Fin d) (Fin 2) = Fin (2 * d)) [1000, 2000, 4000, 8000, 10000]"
  shows "backoff_delay H pol k = Fin (if k < 4 then 1000 * 2 ^ k else 10000)"
proof -
  have t: "numberTimes H (Fin 1000) (Fin 2) = Fin 2000" "numberTimes H (Fin 2000) (Fin 2) = Fin 4000"
      "numberTimes H (Fin 4000) (Fin 2) = Fin 8000" "numberTimes H (Fin 8000) (Fin 2) = Fin 16000"
      "numberTimes H (Fin 10000) (Fin 2) = Fin 20000"
    using assms(4) by simp_all
  have b0: "backoff_delay H pol 0 = Fin 1000" using assms by simp
  have b1: "backoff_delay H pol (Suc 0) = Fin 2000" using assms(2,3) b0 t by simp
  have b2: "backoff_delay H pol (Suc (Suc 0)) = Fin 4000" using assms(2,3) b1 t by simp
  have b3: "backoff_delay H pol (Suc (Suc (Suc 0))) = Fin 8000" using assms(2,3) b2 t by simp
  have b4: "backoff_delay H pol (Suc (Suc (Suc (Suc 0)))) = Fin 10000" using assms(2,3) b3 t by simp
  have cap: "backoff_delay H pol (4 + j) = Fin 10000" for j
  proof (induction j)
    case 0
    then show ?case using b4 by (simp add: numeral_eq_Suc)
  next
    case (Suc j)
    have "4 + Suc j = Suc (4 + j)" by simp
    then have "backoff_delay H pol (4 + Suc j)
                 = js_min (numberTimes H (backoff_delay H pol (4 + j)) (backoffMultiplier pol)) (maxDelayMs pol)"
      by (simp only: backoff_delay.simps)
    then show ?case using Suc assms(2,3) t by simp
  qed
  consider "k = 0" | "k = Suc 0" | "k = Suc (Suc 0)" | "k = Suc (Suc (Suc 0))" | "4 \<le> k"
    by linarith
  then show ?thesis
  proof cases
    case 1
    then show ?thesis using b0 by simp
  next
    case 2
    then show ?thesis using b1 by simp
  next
    case 3
    then show ?thesis using b2 by simp
  next
    case 4
    then show ?thesis using b3 by simp
  next
    case 5
    then show ?thesis using cap[of "k - 4"] by simp
  qed
qed

text \<open>
  Claim C6. For a policy with \<open>maxRetries \<ge> 0\<close>, \<open>initialDelay > 0\<close>,
  \<open>maxDelay \<ge> initialDelay\<close> and \<open>backoffMultiplier \<ge> 1\<close>, on a runtime whose
  product of each positive delay of the backoff sequence and the multiplier is not below
  that delay (it may be infinite), as the rounded product of a double-precision number
  and a multiplier of at least one is.

  Every failed attempt that is retried is followed by its warning and by one sleep,
  and the next attempt follows that sleep: when every attempt fails, and when attempt
  \<open>k\<close> is the first to succeed, the events of the run are those of \<open>retry_trace\<close>.
  The delays slept are an initial segment of the backoff sequence: the first is the
  initial delay and each next one is \<open>Math.min\<close> of the runtime's product of the
  delay before it and the multiplier, and the cap. They are finite numbers, they are
  non-decreasing and none exceeds \<open>maxDelay\<close>; when every attempt fails there are
  \<open>maxRetries\<close> of them. For multiplier 2, initial delay 1000 and cap 10000, on a
  runtime that doubles 1000, 2000, 4000, 8000 and 10000 exactly, a run whose attempts
  all fail sleeps 1000, 2000, 4000, 8000 and then 10000 each time.
\<close>

theorem executeWithRetry_backoff:
  assumes "0 \<le> maxRetries (policy A)"
    and "initialDelayMs (policy A) = Fin i" and "maxDelayMs (policy A) = Fin M"
    and "backoffMultiplier (policy A) = Fin m"
    and "0 < i" and "i \<le> M" and "1 \<le> m"
    and "\<forall>k d. backoff_delay H (policy A) k = Fin d \<and> 0 < d \<longrightarrow>
            numberTimes H (Fin d) (Fin m) = PosInf
            \<or> (\<exists>p. numberTimes H (Fin d) (Fin m) = Fin p \<and> d \<le> p)"
  shows "((\<forall>j. int j \<le> maxRetries (policy A) \<longrightarrow> isl (transport j (client_request_of A request))) \<longrightarrow>
            fst (executeWithRetry H A transport request)
              = retry_trace H (policy A) (\<lambda>attempt. transport attempt (client_request_of A request))
                  (nat (maxRetries (policy A)))
            \<and> length (sleeps_of (fst (executeWithRetry H A transport request))) = nat (maxRetries (policy A)))
       \<and> (\<forall>k r. int k \<le> maxRetries (policy A)
               \<and> (\<forall>j<k. isl (transport j (client_request_of A request)))
               \<and> transport k (client_request_of A request) = Inr r \<longrightarrow>
            fst (executeWithRetry H A transport request)
              = retry_trace H (policy A) (\<lambda>attempt. transport attempt (client_request_of A request)) k)
       \<and> retry_trace H (policy A) op 2
            = [Attempt 0, LogWarn 1 (case op 0 of Inl e \<Rightarrow> message e | Inr r \<Rightarrow> []) (backoff_delay H (policy A) 0),
               Sleep (backoff_delay H (policy A) 0),
               Attempt 1, LogWarn 2 (case op 1 of Inl e \<Rightarrow> message e | Inr r \<Rightarrow> []) (backoff_delay H (policy A) 1),
               Sleep (backoff_delay H (policy A) 1),
               Attempt 2]
       \<and> sleeps_of (fst (executeWithRetry H A transport request))
           = map (backoff_delay H (policy A))
               [0..<length (sleeps_of (fst (executeWithRetry H A transport request)))]
       \<and> (sleeps_of (fst (executeWithRetry H A transport request)) \<noteq> [] \<longrightarrow>
            hd (sleeps_of (fst (executeWithRetry H A transport request))) = initialDelayMs (policy A))
       \<and> (\<forall>j. Suc j < length (sleeps_of (fst (executeWithRetry H A transport request))) \<longrightarrow>
            sleeps_of (fst (executeWithRetry H A transport request)) ! Suc j
              = js_min (numberTimes H (sleeps_of (fst (executeWithRetry H A transport request)) ! j)
                          (backoffMultiplier (policy A)))
                  (maxDelayMs (policy A)))
       \<and> (\<exists>ds. sleeps_of (fst (executeWithRetry H A transport request)) = map Fin ds
              \<and> sorted ds \<and> (\<forall>d \<in> set ds. 0 < d \<and> d \<le> M))
       \<and> (i = 1000 \<and> M = 10000 \<and> m = 2
             \<and> list_all (\<lambda>d. numberTimes H (Fin d) (Fin 2) = Fin (2 * d)) [1000, 2000, 4000, 8000, 10000]
             \<and> (\<forall>j. int j \<le> maxRetries (policy A) \<longrightarrow> isl (transport j (client_request_of A request))) \<longrightarrow>
            sleeps_of (fst (executeWithRetry H A transport request))
              = map (\<lambda>k. Fin (if k < 4 then 1000 * 2 ^ k else 10000)) [0..<nat (maxRetries (policy A))])"
proof -
  let ?op = "\<lambda>attempt. transport attempt (client_request_of A request)"
  let ?run = "retry_loop H (policy A) ?op 0 (initialDelayMs (policy A)) None"
  let ?s = "sleeps_of (fst ?run)"
  let ?n = "nat (maxRetries (policy A))"
  have run: "executeWithRetry H A transport request = ?run"
    by (simp add: executeWithRetry_def)
  have le0: "int 0 \<le> maxRetries (policy A)" using assms(1) by simp
  have d0: "initialDelayMs (policy A) = backoff_delay H (policy A) 0" by simp
  have fail: "fst ?run = retry_trace H (policy A) ?op ?n \<and> length ?s = ?n"
    if "\<forall>j. int j \<le> maxRetries (policy A) \<longrightarrow> isl (?op j)"
  proof -
    have "fst ?run = retry_trace H (policy A) ?op ?n"
      using retry_loop_trace_fail[OF le0 _ d0, of ?op None] that
      by (simp add: retry_trace_def)
    then show ?thesis by (simp add: sleeps_of_retry_trace)
  qed
  have succ: "fst ?run = retry_trace H (policy A) ?op k"
    if "int k \<le> maxRetries (policy A)" "\<forall>j<k. isl (?op j)" "?op k = Inr r" for k r
  proof -
    have f: "\<forall>j. 0 \<le> j \<and> j < k \<longrightarrow> isl (?op j)" using that(2) by simp
    have z: "(0::nat) \<le> k" by simp
    show ?thesis
      using retry_loop_trace_success[where op = ?op and e = None, OF z that(1) f that(3) d0]
      by (simp only: retry_trace_def)
  qed
  have two: "retry_trace H (policy A) op 2
            = [Attempt 0, LogWarn 1 (case op 0 of Inl e \<Rightarrow> message e | Inr r \<Rightarrow> []) (backoff_delay H (policy A) 0),
               Sleep (backoff_delay H (policy A) 0),
               Attempt 1, LogWarn 2 (case op 1 of Inl e \<Rightarrow> message e | Inr r \<Rightarrow> []) (backoff_delay H (policy A) 1),
               Sleep (backoff_delay H (policy A) 1),
               Attempt 2]"
    by (simp add: retry_trace_def retry_round_def upt_rec del: backoff_delay.simps)
  have seq: "?s = map (backoff_delay H (policy A)) [0..<length ?s]"
    using retry_loop_sleeps[of "initialDelayMs (policy A)" H "policy A" 0 ?op None] by simp
  have nth: "?s ! j = backoff_delay H (policy A) j" if "j < length ?s" for j
  proof -
    have "?s ! j = map (backoff_delay H (policy A)) [0..<length ?s] ! j"
      using seq by simp
    also have "\<dots> = backoff_delay H (policy A) j"
      using that by (simp only: length_upt nth_map nth_upt minus_nat.diff_0 add_0)
    finally show ?thesis .
  qed
  have first: "?s \<noteq> [] \<longrightarrow> hd ?s = initialDelayMs (policy A)"
  proof
    assume ne: "?s \<noteq> []"
    then have "hd ?s = ?s ! 0" by (simp add: hd_conv_nth)
    also have "\<dots> = backoff_delay H (policy A) 0" using ne by (intro nth) simp
    finally show "hd ?s = initialDelayMs (policy A)" by simp
  qed
  have step: "\<forall>j. Suc j < length ?s \<longrightarrow>
                ?s ! Suc j = js_min (numberTimes H (?s ! j) (backoffMultiplier (policy A))) (maxDelayMs (policy A))"
  proof (intro allI impI)
    fix j assume j: "Suc j < length ?s"
    then have "j < length ?s" by simp
    from nth[OF j] nth[OF this]
    show "?s ! Suc j = js_min (numberTimes H (?s ! j) (backoffMultiplier (policy A))) (maxDelayMs (policy A))"
      by simp
  qed
  have srt: "\<exists>ds. ?s = map Fin ds \<and> sorted ds \<and> (\<forall>d \<in> set ds. 0 < d \<and> d \<le> M)"
    using backoff_delay_sorted[OF assms(2,3,4,5,6,8), of "length ?s"] seq by simp
  have ex: "?s = map (\<lambda>k. Fin (if k < 4 then 1000 * 2 ^ k else 10000)) [0..<?n]"
    if h: "i = 1000 \<and> M = 10000 \<and> m = 2
             \<and> list_all (\<lambda>d. numberTimes H (Fin d) (Fin 2) = Fin (2 * d)) [1000, 2000, 4000, 8000, 10000]
             \<and> (\<forall>j. int j \<le> maxRetries (policy A) \<longrightarrow> isl (?op j))"
  proof -
    from h fail have len: "length ?s = ?n" by blast
    have "backoff_delay H (policy A) k = Fin (if k < 4 then 1000 * 2 ^ k else 10000)" for k
      by (rule backoff_example) (use assms(2,3,4) h in simp_all)
    then have b: "backoff_delay H (policy A) = (\<lambda>k. Fin (if k < 4 then 1000 * 2 ^ k else 10000))"
      by (intro ext)
    have "?s = map (backoff_delay H (policy A)) [0..<?n]"
      using seq len by simp
    then show ?thesis by (simp only: b)
  qed
  show ?thesis
    unfolding run using fail succ two seq first step srt ex by blast
qed

theorem executeWithRetry_backoff_witness:
  "0 \<le> maxRetries (policy A6)
   \<and> initialDelayMs (policy A6) = Fin 1000 \<and> maxDelayMs (policy A6) = Fin 10000
   \<and> backoffMultiplier (policy A6) = Fin 2
   \<and> list_all (\<lambda>d. numberTimes example_host (Fin d) (Fin 2) = Fin (2 * d)) [1000, 2000, 4000, 8000, 10000]
   \<and> sleeps_of (fst (executeWithRetry example_host A6 T_down R0))
       = [Fin 1000, Fin 2000, Fin 4000, Fin 8000, Fin 10000, Fin 10000]
   \<and> length (sleeps_of (fst (executeWithRetry example_host A6 T_down R0))) = nat (maxRetries (policy A6))
   \<and> fst (executeWithRetry example_host A0 T_down R0)
       = [Attempt 0, LogWarn 1 ''down 0'' (Fin 1000), Sleep (Fin 1000),
          Attempt 1, LogWarn 2 ''down 1'' (Fin 2000), Sleep (Fin 2000),
          Attempt 2]
   \<and> fst (executeWithRetry example_host A0 T_ok R0)
       = [Attempt 0, LogWarn 1 ''timeout'' (Fin 1000), Sleep (Fin 1000), Attempt 1]"
proof -
  have grow: "\<forall>k d. backoff_delay example_host (policy A) k = Fin d \<and> 0 < d \<longrightarrow>
            numberTimes example_host (Fin d) (Fin 2) = PosInf
            \<or> (\<exists>p. numberTimes example_host (Fin d) (Fin 2) = Fin p \<and> d \<le> p)" for A
    by (simp add: example_host_def exact_op_def)
  have dbl: "list_all (\<lambda>d. numberTimes example_host (Fin d) (Fin 2) = Fin (2 * d)) [1000, 2000, 4000, 8000, 10000]"
    by (simp add: example_host_def exact_op_def)
  have pos: "(0::real) < 1000" "(1000::real) \<le> 10000" "(1::real) \<le> 2"
    by simp_all
  have p6: "0 \<le> maxRetries (policy A6)" "initialDelayMs (policy A6) = Fin 1000"
      "maxDelayMs (policy A6) = Fin 10000" "backoffMultiplier (policy A6) = Fin 2"
    by (simp_all add: A6_def)
  have p0: "0 \<le> maxRetries (policy A0)" "initialDelayMs (policy A0) = Fin 1000"
      "maxDelayMs (policy A0) = Fin 10000" "backoffMultiplier (policy A0) = Fin 2"
    by (simp_all add: A0_def)
  have fails6: "\<forall>j. int j \<le> maxRetries (policy A6) \<longrightarrow> isl (T_down j (client_request_of A6 R0))"
    by (simp add: T_down_def)
  have fails0: "\<forall>j. int j \<le> maxRetries (policy A0) \<longrightarrow> isl (T_down j (client_request_of A0 R0))"
    by (simp add: T_down_def)
  have ok: "int 1 \<le> maxRetries (policy A0) \<and> (\<forall>j<1. isl (T_ok j (client_request_of A0 R0)))
      \<and> T_ok 1 (client_request_of A0 R0)
          = Inr \<lparr>hr_data = VObj [(''a'', VNum (Fin 1))], hr_status = 200, hr_headers = []\<rparr>"
    by (simp add: T_ok_def A0_def)
  note T6 = executeWithRetry_backoff[where transport = T_down and request = R0
      and op = "\<lambda>j. T_down j (client_request_of A6 R0)", OF p6 pos grow]
  note T0 = executeWithRetry_backoff[where transport = T_down and request = R0
      and op = "\<lambda>j. T_down j (client_request_of A0 R0)", OF p0 pos grow]
  note T1 = executeWithRetry_backoff[where transport = T_ok and request = R0
      and op = "\<lambda>j. T_ok j (client_request_of A0 R0)", OF p0 pos grow]
  have len: "length (sleeps_of (fst (executeWithRetry example_host A6 T_down R0))) = nat (maxRetries (policy A6))"
    by (rule T6[THEN conjunct1, THEN mp, OF fails6, THEN conjunct2])
  have "sleeps_of (fst (executeWithRetry example_host A6 T_down R0))
          = map (\<lambda>k. Fin (if k < 4 then 1000 * 2 ^ k else 10000)) [0..<nat (maxRetries (policy A6))]"
    using T6[THEN conjunct2, THEN conjunct2, THEN conjunct2, THEN conjunct2, THEN conjunct2,
             THEN conjunct2, THEN conjunct2, rule_format] dbl fails6
    by blast
  also have "\<dots> = [Fin 1000, Fin 2000, Fin 4000, Fin 8000, Fin 10000, Fin 10000]"
    by (simp add: A6_def upt_rec)
  finally have six: "sleeps_of (fst (executeWithRetry example_host A6 T_down R0))
       = [Fin 1000, Fin 2000, Fin 4000, Fin 8000, Fin 10000, Fin 10000]" .
  have b: "backoff_delay example_host (policy A0) 0 = Fin 1000"
      "backoff_delay example_host (policy A0) 1 = Fin 2000"
    by (simp_all add: A0_def example_host_def exact_op_def)
  have n: "nat (maxRetries (policy A0)) = 2" by (simp add: A0_def)
  have "fst (executeWithRetry example_host A0 T_down R0)
        = retry_trace example_host (policy A0) (\<lambda>j. T_down j (client_request_of A0 R0)) 2"
    using T0[THEN conjunct1, THEN mp, OF fails0, THEN conjunct1] unfolding n .
  also have "\<dots> = [Attempt 0, LogWarn 1 ''down 0'' (Fin 1000), Sleep (Fin 1000),
          Attempt 1, LogWarn 2 ''down 1'' (Fin 2000), Sleep (Fin 2000), Attempt 2]"
    unfolding T0[THEN conjunct2, THEN conjunct2, THEN conjunct1] b
    by (simp add: T_down_def digit_char_def)
  finally have tr0: "fst (executeWithRetry example_host A0 T_down R0)
       = [Attempt 0, LogWarn 1 ''down 0'' (Fin 1000), Sleep (Fin 1000),
          Attempt 1, LogWarn 2 ''down 1'' (Fin 2000), Sleep (Fin 2000),
          Attempt 2]" .
  have "fst (executeWithRetry example_host A0 T_ok R0)
        = retry_trace example_host (policy A0) (\<lambda>j. T_ok j (client_request_of A0 R0)) 1"
    by (rule T1[THEN conjunct2, THEN conjunct1, rule_format, OF ok])
  also have "\<dots> = [Attempt 0, LogWarn 1 ''timeout'' (Fin 1000), Sleep (Fin 1000), Attempt 1]"
    using b(1) by (simp add: retry_trace_def retry_round_def T_ok_def del: backoff_delay.simps)
  finally have tr1: "fst (executeWithRetry example_host A0 T_ok R0)
       = [Attempt 0, LogWarn 1 ''timeout'' (Fin 1000), Sleep (Fin 1000), Attempt 1]" .
  show ?thesis
    using p6 dbl six len tr0 tr1 by simp
qed

section \<open>The adapter facade: properties\<close>

lemma execute_thrown:
  "executeWithRetry H A transport request = (evs, Inl thrown) \<Longrightarrow>
     execute H A transport clk request st
       = on_catch A clk evs thrown
           (modify (metrics A) (\<lambda>m. m\<lparr>requestsTotal := requestsTotal m + 1\<rparr>) st)"
  by (simp add: execute_def)

lemma on_catch_store:
  "objects (snd (snd (on_catch A clk evs thrown st))) (metrics A)
     = (objects st (metrics A))\<lparr>requestsFailed := requestsFailed (objects st (metrics A)) + 1\<rparr>"
  by (cases thrown) (simp_all add: on_catch_def modify_def Let_def)

lemma on_catch_frame:
  "r \<noteq> metrics A \<Longrightarrow> objects (snd (snd (on_catch A clk evs thrown st))) r = objects st r"
  by (cases thrown) (simp_all add: on_catch_def modify_def Let_def)

lemma on_catch_response:
  "fst (snd (on_catch A clk evs (Some err) st))
     = Inr \<lparr>success = False, resp_data = None, resp_error = Some (message err),
            statusCode = None, resp_headers = None,
            metadata = Some \<lparr>duration = endTime clk - startTime clk,
                              timestamp = responseStamp clk, adapter = name (config A)\<rparr>\<rparr>"
  by (simp add: on_catch_def Let_def)

text \<open>
  Claim C4. With \<open>maxRetries \<ge> 0\<close> and a transport that fails at every attempt,
  \<open>execute\<close> returns (no exception reaches the caller) the failure response with
  \<open>success = false\<close>, the message of the last error and the duration, timestamp and
  adapter name as metadata; \<open>requestsFailed\<close> and \<open>requestsTotal\<close> each grow by one,
  \<open>requestsSuccess\<close> and \<open>avgResponseTime\<close> keep their values.
\<close>

theorem execute_transport_failure:
  assumes "0 \<le> maxRetries (policy A)"
    and "\<forall>i. int i \<le> maxRetries (policy A) \<longrightarrow> isl (transport i (client_request_of A request))"
  shows "(\<exists>err. transport (nat (maxRetries (policy A))) (client_request_of A request) = Inl err
            \<and> fst (snd (execute H A transport clk request st))
                = Inr \<lparr>success = False, resp_data = None, resp_error = Some (message err),
                       statusCode = None, resp_headers = None,
                       metadata = Some \<lparr>duration = endTime clk - startTime clk,
                                         timestamp = responseStamp clk,
                                         adapter = name (config A)\<rparr>\<rparr>)
       \<and> requestsFailed (objects (snd (snd (execute H A transport clk request st))) (metrics A))
            = requestsFailed (objects st (metrics A)) + 1
       \<and> requestsTotal (objects (snd (snd (execute H A transport clk request st))) (metrics A))
            = requestsTotal (objects st (metrics A)) + 1
       \<and> requestsSuccess (objects (snd (snd (execute H A transport clk request st))) (metrics A))
            = requestsSuccess (objects st (metrics A))
       \<and> avgResponseTime (objects (snd (snd (execute H A transport clk request st))) (metrics A))
            = avgResponseTime (objects st (metrics A))"
proof -
  let ?op = "\<lambda>attempt. transport attempt (client_request_of A request)"
  have le0: "int 0 \<le> maxRetries (policy A)" using assms(1) by simp
  obtain err where err: "?op (nat (maxRetries (policy A))) = Inl err"
    and thrown: "snd (executeWithRetry H A transport request) = Inl (Some err)"
    using retry_loop_all_fail[OF le0, where op = ?op and d = "initialDelayMs (policy A)" and e = None
        and H = H]
      assms(2)
    by (auto simp: executeWithRetry_def)
  obtain evs where run: "executeWithRetry H A transport request = (evs, Inl (Some err))"
    using thrown by (cases "executeWithRetry H A transport request") simp
  note ex = execute_thrown[OF run, of clk st]
  show ?thesis
    using err
    by (simp add: ex on_catch_response on_catch_store modify_def)
qed


theorem execute_transport_failure_witness:
  "0 \<le> maxRetries (policy A0)
   \<and> fst (snd (execute example_host A0 T_down K0 R0 S0))
       = Inr \<lparr>success = False, resp_data = None, resp_error = Some ''down 2'',
              statusCode = None, resp_headers = None,
              metadata = Some \<lparr>duration = 250, timestamp = ''2024-01-15T00:00:01.250Z'',
                                adapter = ''legacy''\<rparr>\<rparr>
   \<and> requestsFailed (objects (snd (snd (execute example_host A0 T_down K0 R0 S0))) (metrics A0)) = 1
   \<and> requestsTotal (objects (snd (snd (execute example_host A0 T_down K0 R0 S0))) (metrics A0)) = 1
   \<and> requestsSuccess (objects (snd (snd (execute example_host A0 T_down K0 R0 S0))) (metrics A0)) = 0
   \<and> avgResponseTime (objects (snd (snd (execute example_host A0 T_down K0 R0 S0))) (metrics A0)) = Fin 0"
  using execute_transport_failure[of A0 T_down R0 example_host K0 S0]
  by (simp add: A0_def T_down_def K0_def S0_def zero_metrics_def isl_def digit_char_def)

lemma execute_store:
  "objects (snd (snd (execute H A transport clk request st))) (metrics A)
     = (objects st (metrics A))
         \<lparr>requestsTotal := requestsTotal (objects st (metrics A)) + 1,
          requestsFailed := requestsFailed (objects st (metrics A)) + 1\<rparr>
   \<or> (\<exists>avg. objects (snd (snd (execute H A transport clk request st))) (metrics A)
        = (objects st (metrics A))
            \<lparr>requestsTotal := requestsTotal (objects st (metrics A)) + 1,
             requestsSuccess := requestsSuccess (objects st (metrics A)) + 1,
             avgResponseTime := avg\<rparr>)"
  by (auto simp: execute_def on_catch_def modify_def Let_def split: prod.splits sum.splits option.splits)

lemma execute_frame:
  "r \<noteq> metrics A \<Longrightarrow> objects (snd (snd (execute H A transport clk request st))) r = objects st r"
  by (auto simp: execute_def on_catch_def modify_def Let_def split: prod.splits sum.splits option.splits)

lemma execute_counts:
  "requestsTotal (objects (snd (snd (execute H A transport clk request st))) (metrics A))
     = requestsTotal (objects st (metrics A)) + 1
   \<and> (requestsSuccess (objects (snd (snd (execute H A transport clk request st))) (metrics A))
         = requestsSuccess (objects st (metrics A)) + 1
       \<and> requestsFailed (objects (snd (snd (execute H A transport clk request st))) (metrics A))
         = requestsFailed (objects st (metrics A))
      \<or> requestsSuccess (objects (snd (snd (execute H A transport clk request st))) (metrics A))
         = requestsSuccess (objects st (metrics A))
       \<and> requestsFailed (objects (snd (snd (execute H A transport clk request st))) (metrics A))
         = requestsFailed (objects st (metrics A)) + 1)"
  using execute_store[of H A transport clk request st] by auto

lemma execute_all_counts:
  "requestsTotal (objects st (metrics A)) = requestsSuccess (objects st (metrics A)) + requestsFailed (objects st (metrics A)) \<Longrightarrow>
   requestsTotal (objects (execute_all H A cs st) (metrics A))
     = requestsTotal (objects st (metrics A)) + length cs
   \<and> requestsTotal (objects (execute_all H A cs st) (metrics A))
     = requestsSuccess (objects (execute_all H A cs st) (metrics A))
       + requestsFailed (objects (execute_all H A cs st) (metrics A))"
proof (induction cs arbitrary: st)
  case Nil
  then show ?case by simp
next
  case (Cons c cs)
  let ?st = "snd (snd (execute H A (fst c) (fst (snd c)) (snd (snd c)) st))"
  have inv: "requestsTotal (objects ?st (metrics A))
               = requestsSuccess (objects ?st (metrics A)) + requestsFailed (objects ?st (metrics A))"
    using execute_counts[of H A "fst c" "fst (snd c)" "snd (snd c)" st] Cons.prems by auto
  have tot: "requestsTotal (objects ?st (metrics A)) = requestsTotal (objects st (metrics A)) + 1"
    using execute_counts[of H A "fst c" "fst (snd c)" "snd (snd c)" st] by simp
  show ?case
    using Cons.IH[OF inv] tot by simp
qed

lemma new_adapter_metrics:
  "objects (snd (new_adapter cfg st)) (metrics (fst (new_adapter cfg st)))
     = \<lparr>requestsTotal = 0, requestsSuccess = 0, requestsFailed = 0,
        avgResponseTime = Fin 0, totalBytesProcessed = 0\<rparr>"
  by (simp add: new_adapter_def alloc_def Let_def)

text \<open>
  Claim C9. The constructor sets all counters to zero; every \<open>execute\<close> adds one to
  \<open>requestsTotal\<close> and one to exactly one of \<open>requestsSuccess\<close> and
  \<open>requestsFailed\<close>, so it keeps \<open>requestsTotal = requestsSuccess + requestsFailed\<close>;
  after any sequence of calls on a new adapter the equation holds and
  \<open>requestsTotal\<close> is the number of calls.
\<close>

theorem metrics_invariant:
  "requestsTotal (objects (snd (new_adapter cfg st0)) (metrics (fst (new_adapter cfg st0)))) = 0
   \<and> requestsSuccess (objects (snd (new_adapter cfg st0)) (metrics (fst (new_adapter cfg st0)))) = 0
   \<and> requestsFailed (objects (snd (new_adapter cfg st0)) (metrics (fst (new_adapter cfg st0)))) = 0
   \<and> requestsTotal (objects (snd (snd (execute H A transport clk request st))) (metrics A))
        = requestsTotal (objects st (metrics A)) + 1
   \<and> (requestsSuccess (objects (snd (snd (execute H A transport clk request st))) (metrics A))
         = requestsSuccess (objects st (metrics A)) + 1
       \<and> requestsFailed (objects (snd (snd (execute H A transport clk request st))) (metrics A))
         = requestsFailed (objects st (metrics A))
      \<or> requestsSuccess (objects (snd (snd (execute H A transport clk request st))) (metrics A))
         = requestsSuccess (objects st (metrics A))
       \<and> requestsFailed (objects (snd (snd (execute H A transport clk request st))) (metrics A))
         = requestsFailed (objects st (metrics A)) + 1)
   \<and> (requestsTotal (objects st (metrics A))
         = requestsSuccess (objects st (metrics A)) + requestsFailed (objects st (metrics A)) \<longrightarrow>
       requestsTotal (objects (snd (snd (execute H A transport clk request st))) (metrics A))
         = requestsSuccess (objects (snd (snd (execute H A transport clk request st))) (metrics A))
           + requestsFailed (objects (snd (snd (execute H A transport clk request st))) (metrics A)))
   \<and> requestsTotal (objects (execute_all H (fst (new_adapter cfg st0)) cs (snd (new_adapter cfg st0)))
          (metrics (fst (new_adapter cfg st0)))) = length cs
   \<and> requestsTotal (objects (execute_all H (fst (new_adapter cfg st0)) cs (snd (new_adapter cfg st0)))
          (metrics (fst (new_adapter cfg st0))))
        = requestsSuccess (objects (execute_all H (fst (new_adapter cfg st0)) cs (snd (new_adapter cfg st0)))
            (metrics (fst (new_adapter cfg st0))))
          + requestsFailed (objects (execute_all H (fst (new_adapter cfg st0)) cs (snd (new_adapter cfg st0)))
              (metrics (fst (new_adapter cfg st0))))"
proof -
  let ?A = "fst (new_adapter cfg st0)" and ?s = "snd (new_adapter cfg st0)"
  have z: "requestsTotal (objects ?s (metrics ?A)) = 0"
      "requestsSuccess (objects ?s (metrics ?A)) = 0"
      "requestsFailed (objects ?s (metrics ?A)) = 0"
    by (simp_all add: new_adapter_metrics)
  have inv0: "requestsTotal (objects ?s (metrics ?A))
                = requestsSuccess (objects ?s (metrics ?A)) + requestsFailed (objects ?s (metrics ?A))"
    using z by simp
  note all = execute_all_counts[OF inv0, of H cs]
  note one = execute_counts[of H A transport clk request st]
  show ?thesis
    using z all one by auto
qed

theorem metrics_invariant_witness:
  "requestsTotal (objects S0 (metrics A0))
     = requestsSuccess (objects S0 (metrics A0)) + requestsFailed (objects S0 (metrics A0))
   \<and> requestsTotal (objects (snd (snd (execute example_host A0 T_ok K0 R0 S0))) (metrics A0)) = 1
   \<and> requestsSuccess (objects (snd (snd (execute example_host A0 T_ok K0 R0 S0))) (metrics A0)) = 1
   \<and> requestsFailed (objects (snd (snd (execute example_host A0 T_ok K0 R0 S0))) (metrics A0)) = 0
   \<and> requestsTotal (objects (execute_all example_host (fst (new_adapter cfg0 S0))
          [(T_down, K0, R0), (T_ok, K0, R0)] (snd (new_adapter cfg0 S0)))
          (metrics (fst (new_adapter cfg0 S0)))) = 2
   \<and> requestsSuccess (objects (execute_all example_host (fst (new_adapter cfg0 S0))
          [(T_down, K0, R0), (T_ok, K0, R0)] (snd (new_adapter cfg0 S0)))
          (metrics (fst (new_adapter cfg0 S0)))) = 1
   \<and> requestsFailed (objects (execute_all example_host (fst (new_adapter cfg0 S0))
          [(T_down, K0, R0), (T_ok, K0, R0)] (snd (new_adapter cfg0 S0)))
          (metrics (fst (new_adapter cfg0 S0)))) = 1"
proof -
  have run1: "objects (snd (snd (execute example_host A0 T_ok K0 R0 S0))) (metrics A0)
      = zero_metrics\<lparr>requestsTotal := 1, requestsSuccess := 1, avgResponseTime := Fin 250\<rparr>"
    by (simp add: retry_loop.simps execute_def executeWithRetry_def on_catch_def modify_def Let_def A0_def T_ok_def
          K0_def R0_def S0_def zero_metrics_def transform_def decode_def encode_def
          example_host_def exact_op_def js_min.simps)
  have A: "fst (new_adapter cfg0 S0) = A0\<lparr>policy := defaultRetryPolicy, metrics := 1\<rparr>"
    by (simp add: new_adapter_def alloc_def cfg0_def A0_def S0_def getAcceptHeader_def)
  have run2: "requestsSuccess (objects (execute_all example_host (fst (new_adapter cfg0 S0))
          [(T_down, K0, R0), (T_ok, K0, R0)] (snd (new_adapter cfg0 S0)))
          (metrics (fst (new_adapter cfg0 S0)))) = 1"
    unfolding A
    by (simp add: new_adapter_def alloc_def cfg0_def S0_def defaultRetryPolicy_def
          retry_loop.simps execute_def executeWithRetry_def on_catch_def modify_def Let_def A0_def T_ok_def T_down_def
          K0_def R0_def zero_metrics_def transform_def decode_def encode_def)
  show ?thesis
    using metrics_invariant[of cfg0 S0 example_host A0 T_ok K0 R0 S0 "[(T_down, K0, R0), (T_ok, K0, R0)]"]
      run1 run2
    by (simp add: S0_def zero_metrics_def)
qed



lemma new_adapter_allocated:
  "metrics (fst (new_adapter cfg st)) < next_ref (snd (new_adapter cfg st))"
  by (simp add: new_adapter_def alloc_def Let_def)

lemma execute_next_ref:
  "next_ref (snd (snd (execute H A transport clk request st))) = next_ref st"
  by (auto simp: execute_def on_catch_def modify_def Let_def split: prod.splits sum.splits option.splits)

lemma getMetrics_next_ref:
  "next_ref (snd (getMetrics A st)) = Suc (next_ref st)"
  by (simp add: getMetrics_def alloc_def)



section \<open>Property assignment: properties\<close>

lemma keys_insert_index:
  "fst ` set (insert_index n kv ps) = insert (fst kv) (fst ` set ps)"
  by (induction ps) (auto split: option.splits)

lemma map_of_insert_index:
  "fst kv \<notin> fst ` set ps \<Longrightarrow> map_of (insert_index n kv ps) = (map_of ps)(fst kv \<mapsto> snd kv)"
proof (induction ps)
  case Nil
  then show ?case by (cases kv) simp
next
  case (Cons p ps)
  then have ne: "fst p \<noteq> fst kv" and notin: "fst kv \<notin> fst ` set ps" by auto
  show ?case
  proof (cases "\<exists>m. array_index (fst p) = Some m \<and> m < n")
    case True
    then have "insert_index n kv (p # ps) = p # insert_index n kv ps"
      by (auto split: option.splits)
    then show ?thesis
      using Cons.IH[OF notin] ne by (cases p) (auto simp: fun_upd_twist)
  next
    case False
    then have "insert_index n kv (p # ps) = kv # p # ps"
      by (auto split: option.splits)
    then show ?thesis by (cases kv; cases p) (auto simp: fun_eq_iff)
  qed
qed

lemma distinct_insert_index:
  "fst kv \<notin> fst ` set ps \<Longrightarrow> distinct (map fst ps) \<Longrightarrow> distinct (map fst (insert_index n kv ps))"
proof (induction ps)
  case Nil
  then show ?case by simp
next
  case (Cons p ps)
  then have ne: "fst p \<noteq> fst kv" and notin: "fst kv \<notin> fst ` set ps"
    and d: "distinct (map fst ps)" and pn: "fst p \<notin> fst ` set ps" by auto
  have "fst p \<notin> fst ` set (insert_index n kv ps)"
    using ne pn by (simp add: keys_insert_index)
  then show ?case
    using Cons.IH[OF notin d] Cons.prems by (auto split: option.splits)
qed

lemma obj_set_proto: "''__proto__'' \<notin> fst ` set ps \<Longrightarrow> obj_set ps ''__proto__'' v = ps"
  by (simp add: obj_set_def)

lemma map_of_obj_set:
  assumes "k \<noteq> ''__proto__'' \<or> k \<in> fst ` set ps"
  shows "map_of (obj_set ps k v) = (map_of ps)(k \<mapsto> v)"
proof (cases "k \<in> fst ` set ps")
  case True
  then show ?thesis by (simp add: obj_set_def update_conv')
next
  case False
  then have none: "map_of ps k = None" by (simp add: map_of_eq_None_iff)
  from False assms have np: "k \<noteq> ''__proto__''" by blast
  show ?thesis
  proof (cases "array_index k")
    case None
    have "map_of (ps @ [(k, v)]) = (map_of ps)(k \<mapsto> v)"
      using none by (auto simp: fun_eq_iff map_add_def split: option.splits)
    then show ?thesis using False None np by (simp add: obj_set_def)
  next
    case (Some n)
    then show ?thesis
      using False np map_of_insert_index[of "(k, v)" ps n] by (simp add: obj_set_def)
  qed
qed

lemma map_of_obj_set_other: "k' \<noteq> k \<Longrightarrow> map_of (obj_set ps k v) k' = map_of ps k'"
proof (cases "k \<noteq> ''__proto__'' \<or> k \<in> fst ` set ps")
  case True
  assume "k' \<noteq> k"
  then show ?thesis by (simp add: map_of_obj_set[OF True])
next
  case False
  then show ?thesis by (simp add: obj_set_proto)
qed

lemma keys_obj_set:
  assumes "k \<noteq> ''__proto__'' \<or> k \<in> fst ` set ps"
  shows "fst ` set (obj_set ps k v) = insert k (fst ` set ps)"
proof -
  have "fst ` set (obj_set ps k v) = dom (map_of (obj_set ps k v))"
    by (simp add: dom_map_of_conv_image_fst)
  also have "\<dots> = insert k (dom (map_of ps))"
    by (simp add: map_of_obj_set[OF assms])
  finally show ?thesis by (simp add: dom_map_of_conv_image_fst)
qed

lemma distinct_obj_set: "distinct (map fst ps) \<Longrightarrow> distinct (map fst (obj_set ps k v))"
  by (auto simp: obj_set_def distinct_update distinct_insert_index split: option.splits)


lemma obj_get_present: "k \<in> fst ` set ps \<Longrightarrow> map_of ps k = Some (obj_get ps k)"
  by (cases "map_of ps k") (auto simp: obj_get_def map_of_eq_None_iff)

lemma find_prop_object:
  "find_prop H (VObj ps) k = (case map_of ps k of Some v \<Rightarrow> Some v | None \<Rightarrow> member H (VObj ps) k)"
  by (simp add: find_prop_def)

lemma find_prop_own:
  "k \<notin> fst ` set ps \<longrightarrow> member H (VObj ps) k = None \<Longrightarrow> find_prop H (VObj ps) k = map_of ps k"
proof (cases "map_of ps k")
  case None
  assume a: "k \<notin> fst ` set ps \<longrightarrow> member H (VObj ps) k = None"
  from None have "k \<notin> fst ` set ps" by (simp add: map_of_eq_None_iff)
  with a None show ?thesis by (simp add: find_prop_def)
next
  case (Some v)
  then show ?thesis by (simp add: find_prop_def)
qed

section \<open>The schema mapper: properties\<close>




lemma member_example_host: "member example_host v k = standard_member v k"
  by (simp add: example_host_def)

lemma mapFields_loop_object:
  "\<forall>s \<in> fst ` set mapping. s \<notin> fst ` set ps \<longrightarrow> member H (VObj ps) s = None \<Longrightarrow>
     mapFields_loop H (VObj ps) mapping acc = Inr (select_fields ps mapping acc)"
proof (induction mapping arbitrary: acc)
  case Nil
  then show ?case by simp
next
  case (Cons st rest)
  have own: "find_prop H (VObj ps) (fst st) = map_of ps (fst st)"
    by (rule find_prop_own) (use Cons.prems in simp)
  have present: "(map_of ps (fst st) \<noteq> None) = (fst st \<in> fst ` set ps)"
    by (simp add: map_of_eq_None_iff)
  have rest: "\<forall>s \<in> fst ` set rest. s \<notin> fst ` set ps \<longrightarrow> member H (VObj ps) s = None"
    using Cons.prems by simp
  show ?case
    using Cons.IH[OF rest] present by (simp add: own obj_get_def)
qed

lemma mapFields_object:
  "\<forall>s \<in> fst ` set mapping. s \<notin> fst ` set ps \<longrightarrow> member H (VObj ps) s = None \<Longrightarrow>
     mapFields H (VObj ps) mapping = Inr (VObj (select_fields ps mapping []))"
  by (simp add: mapFields_def mapFields_loop_object)

lemma select_fields_keys:
  "''__proto__'' \<notin> snd ` set mapping \<Longrightarrow>
     fst ` set (select_fields ps mapping acc)
       = fst ` set acc \<union> {t. \<exists>s. (s, t) \<in> set mapping \<and> s \<in> fst ` set ps}"
proof (induction mapping arbitrary: acc)
  case Nil
  then show ?case by simp
next
  case (Cons st rest)
  obtain s0 t0 where st: "st = (s0, t0)" by (cases st)
  from Cons.prems st have np: "t0 \<noteq> ''__proto__''" and rest: "''__proto__'' \<notin> snd ` set rest"
    by auto
  have k: "fst ` set (obj_set acc t0 v) = insert t0 (fst ` set acc)" for v
    by (rule keys_obj_set) (simp add: np)
  show ?case
    using st by (auto simp: Cons.IH[OF rest] k)
qed

lemma select_fields_distinct:
  "distinct (map fst acc) \<Longrightarrow> distinct (map fst (select_fields ps mapping acc))"
  by (induction mapping arbitrary: acc) (simp_all add: distinct_obj_set)

lemma select_fields_other:
  "t \<notin> snd ` set mapping \<Longrightarrow> map_of (select_fields ps mapping acc) t = map_of acc t"
proof (induction mapping arbitrary: acc)
  case Nil
  then show ?case by simp
next
  case (Cons st rest)
  then have ne: "t \<noteq> snd st" and r: "t \<notin> snd ` set rest" by auto
  show ?case
    using Cons.IH[OF r] ne by (simp add: map_of_obj_set_other)
qed

lemma select_fields_values:
  "''__proto__'' \<notin> snd ` set mapping \<Longrightarrow> map_of (select_fields ps mapping acc) t = Some v \<Longrightarrow>
     map_of acc t = Some v \<or> (\<exists>s. (s, t) \<in> set mapping \<and> map_of ps s = Some v)"
proof (induction mapping arbitrary: acc)
  case Nil
  then show ?case by simp
next
  case (Cons st rest)
  obtain s0 t0 where st: "st = (s0, t0)" by (cases st)
  from Cons.prems(1) st have np: "t0 \<noteq> ''__proto__''" and rest: "''__proto__'' \<notin> snd ` set rest"
    by auto
  show ?case
  proof (cases "s0 \<in> fst ` set ps")
    case False
    then show ?thesis using Cons.IH[OF rest, of acc] Cons.prems(2) st by auto
  next
    case True
    let ?acc = "obj_set acc t0 (obj_get ps s0)"
    have m: "map_of ?acc = (map_of acc)(t0 \<mapsto> obj_get ps s0)"
      by (rule map_of_obj_set) (simp add: np)
    from Cons.prems(2) st True have "map_of (select_fields ps rest ?acc) t = Some v" by simp
    from Cons.IH[OF rest this]
    show ?thesis
      using st True obj_get_present[OF True]
      by (auto simp: m split: if_splits)
  qed
qed

lemma select_fields_injective:
  "''__proto__'' \<notin> snd ` set mapping \<Longrightarrow> distinct (map snd mapping) \<Longrightarrow> (s, t) \<in> set mapping \<Longrightarrow>
   s \<in> fst ` set ps \<Longrightarrow>
     map_of (select_fields ps mapping acc) t = map_of ps s"
proof (induction mapping arbitrary: acc)
  case Nil
  then show ?case by simp
next
  case (Cons st rest)
  obtain s0 t0 where st: "st = (s0, t0)" by (cases st)
  from Cons.prems(1) st have np: "t0 \<noteq> ''__proto__''" and rest: "''__proto__'' \<notin> snd ` set rest"
    by auto
  from Cons.prems(2) st have d: "distinct (map snd rest)" and fresh: "t0 \<notin> snd ` set rest" by auto
  show ?case
  proof (cases "(s, t) \<in> set rest")
    case True
    from Cons.IH[OF rest d True Cons.prems(4)] show ?thesis by simp
  next
    case False
    with Cons.prems(3) st have eq: "s = s0" "t = t0" by auto
    have m: "map_of (obj_set acc t0 (obj_get ps s0)) = (map_of acc)(t0 \<mapsto> obj_get ps s0)"
      by (rule map_of_obj_set) (simp add: np)
    have "map_of (select_fields ps rest (obj_set acc t0 (obj_get ps s0))) t0
            = map_of (obj_set acc t0 (obj_get ps s0)) t0"
      by (rule select_fields_other[OF fresh])
    then show ?thesis
      using eq st Cons.prems(4) obj_get_present[of s0 ps]
      by (simp add: m)
  qed
qed

lemma decode_object: "decode H fmt (VObj ps) = Inr (VObj ps, if fmt = ''soap'' then 1 else 0)"
  by (simp add: decode_def parseSOAP_def)

lemma applyTransforms_not_array: "\<not> isArray v \<Longrightarrow> applyTransforms H v ts = Inr v"
  by (cases v) (simp_all add: applyTransforms_def)

lemma applySchemaMapping_object:
  assumes "schemaMapping cfg = Some sm" and "sourceFields sm = Some mapping"
    and "\<forall>s \<in> fst ` set mapping. s \<notin> fst ` set ps \<longrightarrow> member H (VObj ps) s = None"
  shows "applySchemaMapping H cfg (VObj ps)
           = Inr \<lparr>mr_data = VObj (select_fields ps mapping []), mapped = length mapping,
                  transformed = (case transforms sm of None \<Rightarrow> 0 | Some ts \<Rightarrow> length ts)\<rparr>"
  using assms(1,2)
  by (simp add: applySchemaMapping_def mapFields_object[OF assms(3)] applyTransforms_not_array
        split: option.splits)

text \<open>
  Claim C2, as stated, fails. The mapper tests \<open>sourceField in data\<close>, which is also
  true of the members that the input inherits from \<open>Object.prototype\<close>, and it
  assigns with \<open>result[targetField] = \<dots>\<close>, which for the name \<open>__proto__\<close> reaches a
  setter and adds no property. With the mapping \<open>{toString: 'x', a: '__proto__'}\<close>
  the input \<open>{a: 1}\<close> gives an object whose only key is \<open>x\<close>, with the inherited
  function as its value: \<open>toString\<close> is not a key of the input and yet \<open>x\<close> is
  present, and \<open>a\<close> is a key of the input and yet there is no entry \<open>__proto__\<close>.
\<close>

theorem mapFields_inherited_names:
  "schemaMapping cfg_inherited
     = Some \<lparr>sourceFields = Some [(''toString'', ''x''), (''a'', ''__proto__'')], transforms = None\<rparr>
   \<and> applySchemaMapping example_host cfg_inherited (VObj [(''a'', VNum (Fin 1))])
       = Inr \<lparr>mr_data = VObj [(''x'', VBuiltin ''toString'')], mapped = 2, transformed = 0\<rparr>"
  by (simp add: cfg_inherited_def applySchemaMapping_def mapFields_def find_prop_def
        member_example_host standard_member_def object_prototype_functions_def
        obj_set_def array_index_def is_digit_def applyTransforms_def)

text \<open>
  Claim C2, amended. With a schema mapping whose \<open>sourceFields\<close> is configured, for a
  structured object as input, when no source field that is missing from the input is
  the name of a member that the input inherits (such as \<open>toString\<close> or
  \<open>constructor\<close>) and no target field is \<open>__proto__\<close>: the mapper returns a new
  object whose keys are exactly the target names of the mapping entries whose source
  field is a key of the input; each value is the input's value at a corresponding
  source field (at the source field itself when no two entries share a target), so
  every field the mapping does not list is dropped. \<open>mapped\<close>, and with it
  \<open>fieldsMapped\<close> of \<open>transform\<close>, is the number of mapping entries, present in the
  input or not.
\<close>

theorem applySchemaMapping_selects_fields:
  assumes "schemaMapping cfg = Some sm" and "sourceFields sm = Some mapping"
    and "\<forall>s \<in> fst ` set mapping. s \<notin> fst ` set ps \<longrightarrow> member H (VObj ps) s = None"
    and "''__proto__'' \<notin> snd ` set mapping"
  shows "applySchemaMapping H cfg (VObj ps)
           = Inr \<lparr>mr_data = VObj (select_fields ps mapping []), mapped = length mapping,
                  transformed = (case transforms sm of None \<Rightarrow> 0 | Some ts \<Rightarrow> length ts)\<rparr>
       \<and> fst ` set (select_fields ps mapping []) = {t. \<exists>s. (s, t) \<in> set mapping \<and> s \<in> fst ` set ps}
       \<and> distinct (map fst (select_fields ps mapping []))
       \<and> (\<forall>t v. map_of (select_fields ps mapping []) t = Some v \<longrightarrow>
             (\<exists>s. (s, t) \<in> set mapping \<and> map_of ps s = Some v))
       \<and> (distinct (map snd mapping) \<longrightarrow>
             (\<forall>s t. (s, t) \<in> set mapping \<and> s \<in> fst ` set ps \<longrightarrow>
                map_of (select_fields ps mapping []) t = map_of ps s))
       \<and> (\<forall>r. transform H cfg stamp (VObj ps) override = Inr r \<longrightarrow>
             fieldsMapped (tr_metadata r) = length mapping)"
proof -
  note m = applySchemaMapping_object[OF assms(1,2,3)]
  have keys: "fst ` set (select_fields ps mapping []) = {t. \<exists>s. (s, t) \<in> set mapping \<and> s \<in> fst ` set ps}"
    by (simp add: select_fields_keys[OF assms(4)])
  have dist: "distinct (map fst (select_fields ps mapping []))"
    by (simp add: select_fields_distinct)
  have vals: "\<forall>t v. map_of (select_fields ps mapping []) t = Some v \<longrightarrow>
             (\<exists>s. (s, t) \<in> set mapping \<and> map_of ps s = Some v)"
    using select_fields_values[OF assms(4), of ps "[]"] by auto
  have inj: "distinct (map snd mapping) \<longrightarrow>
             (\<forall>s t. (s, t) \<in> set mapping \<and> s \<in> fst ` set ps \<longrightarrow>
                map_of (select_fields ps mapping []) t = map_of ps s)"
    using select_fields_injective[OF assms(4), of _ _ ps "[]"] by blast
  have meta: "\<forall>r. transform H cfg stamp (VObj ps) override = Inr r \<longrightarrow>
             fieldsMapped (tr_metadata r) = length mapping"
    using assms(1)
    by (auto simp: transform_def decode_object m Let_def split: sum.splits)
  show ?thesis
    using m keys dist vals inj meta by blast
qed

theorem applySchemaMapping_selects_fields_witness:
  "schemaMapping cfg_map = Some \<lparr>sourceFields = Some [(''a'', ''x''), (''b'', ''y'')], transforms = None\<rparr>
   \<and> member example_host (VObj [(''a'', VNum (Fin 1))]) ''b'' = None
   \<and> ''__proto__'' \<notin> snd ` set [(''a'', ''x''), (''b'', ''y'')]
   \<and> applySchemaMapping example_host cfg_map
         (VObj [(''a'', VNum (Fin 1)), (''b'', VNum (Fin 2)), (''c'', VNum (Fin 3))])
       = Inr \<lparr>mr_data = VObj [(''x'', VNum (Fin 1)), (''y'', VNum (Fin 2))], mapped = 2, transformed = 0\<rparr>
   \<and> applySchemaMapping example_host cfg_map (VObj [(''a'', VNum (Fin 1))])
       = Inr \<lparr>mr_data = VObj [(''x'', VNum (Fin 1))], mapped = 2, transformed = 0\<rparr>
   \<and> transform example_host cfg_map ''2024-01-15T00:00:01.200Z''
         (VObj [(''a'', VNum (Fin 1)), (''b'', VNum (Fin 2)), (''c'', VNum (Fin 3))]) None
       = Inr \<lparr>tr_data = VObj [(''x'', VNum (Fin 1)), (''y'', VNum (Fin 2))],
              tr_metadata = \<lparr>tm_sourceFormat = ''json'', tm_targetFormat = ''json'', fieldsMapped = 2,
                             fieldsTransformed = 0, tm_timestamp = ''2024-01-15T00:00:01.200Z''\<rparr>\<rparr>"
proof -
  let ?sm = "\<lparr>sourceFields = Some [(''a'', ''x''), (''b'', ''y'')], transforms = None\<rparr>"
  let ?map = "[(''a'', ''x''), (''b'', ''y'')]"
  let ?d1 = "[(''a'', VNum (Fin 1)), (''b'', VNum (Fin 2)), (''c'', VNum (Fin 3))]"
  let ?d2 = "[(''a'', VNum (Fin 1))]"
  have c: "schemaMapping cfg_map = Some ?sm" by (simp add: cfg_map_def)
  have s: "sourceFields ?sm = Some ?map" by simp
  have b: "member example_host (VObj ?d2) ''b'' = None"
    by (simp add: member_example_host standard_member_def object_prototype_functions_def)
  have i1: "\<forall>s \<in> fst ` set ?map. s \<notin> fst ` set ?d1 \<longrightarrow> member example_host (VObj ?d1) s = None"
    by simp
  have i2: "\<forall>s \<in> fst ` set ?map. s \<notin> fst ` set ?d2 \<longrightarrow> member example_host (VObj ?d2) s = None"
    using b by simp
  have np: "''__proto__'' \<notin> snd ` set ?map" by simp
  have f: "sourceFormat cfg_map = ''json''" "targetFormat cfg_map = ''json''"
    by (simp_all add: cfg_map_def cfg0_def)
  have sel1: "select_fields ?d1 ?map [] = [(''x'', VNum (Fin 1)), (''y'', VNum (Fin 2))]"
    by (simp add: obj_set_def obj_get_def array_index_def is_digit_def)
  have sel2: "select_fields ?d2 ?map [] = [(''x'', VNum (Fin 1))]"
    by (simp add: obj_set_def obj_get_def array_index_def is_digit_def)
  have m1: "applySchemaMapping example_host cfg_map (VObj ?d1)
       = Inr \<lparr>mr_data = VObj [(''x'', VNum (Fin 1)), (''y'', VNum (Fin 2))], mapped = 2, transformed = 0\<rparr>"
    using applySchemaMapping_selects_fields[OF c s i1 np, THEN conjunct1]
    by (simp add: sel1 del: select_fields.simps)
  have m2: "applySchemaMapping example_host cfg_map (VObj ?d2)
       = Inr \<lparr>mr_data = VObj [(''x'', VNum (Fin 1))], mapped = 2, transformed = 0\<rparr>"
    using applySchemaMapping_selects_fields[OF c s i2 np, THEN conjunct1]
    by (simp add: sel2 del: select_fields.simps)
  have t: "transform example_host cfg_map ''2024-01-15T00:00:01.200Z'' (VObj ?d1) None
       = Inr \<lparr>tr_data = VObj [(''x'', VNum (Fin 1)), (''y'', VNum (Fin 2))],
              tr_metadata = \<lparr>tm_sourceFormat = ''json'', tm_targetFormat = ''json'', fieldsMapped = 2,
                             fieldsTransformed = 0, tm_timestamp = ''2024-01-15T00:00:01.200Z''\<rparr>\<rparr>"
    by (simp add: transform_def decode_def encode_def Let_def c f m1)
  show ?thesis
    using c b np m1 m2 t by simp
qed














section \<open>Schema inference: properties\<close>

lemma char_code_eq: "(c = d) = ((of_char c :: nat) = of_char d)"
  by simp

lemma decimal_is_digit: "decimal c = is_digit c"
proof -
  have "is_digit c = ((of_char c :: nat) \<in> {48, 49, 50, 51, 52, 53, 54, 55, 56, 57})"
    unfolding is_digit_def insert_iff empty_iff by presburger
  also have "\<dots> = decimal c"
    unfolding decimal_def by (simp add: char_code_eq[of c])
  finally show ?thesis by simp
qed

lemma looksLikeDate_text: "looksLikeDate (VStr s) = date_like s"
  by (cases s rule: date_like.cases) (simp_all add: datePatterns_def decimal_is_digit)

lemma inferFieldType_spec: "inferFieldType v = type_of_sample v"
  by (cases v) (simp_all add: inferFieldType_def looksLikeDate_text del: looksLikeDate.simps)

lemma obj_get_nullish:
  "(obj_get ps k = VNull \<or> obj_get ps k = VUndefined)
     = (map_of ps k = None \<or> map_of ps k = Some VNull \<or> map_of ps k = Some VUndefined)"
  by (auto simp: obj_get_def split: option.splits)

lemma get_prop_record:
  "map_of ps k = None \<longrightarrow> member H (VObj ps) k = None \<Longrightarrow> get_prop H (VObj ps) k = Inr (obj_get ps k)"
  by (cases "map_of ps k") (simp_all add: find_prop_def obj_get_def)

lemma some_nullish_records:
  "\<forall>ps \<in> set pss. map_of ps k = None \<longrightarrow> member H (VObj ps) k = None \<Longrightarrow>
   some_nullish H k (map VObj pss)
     = Inr (\<exists>ps \<in> set pss. map_of ps k = None \<or> map_of ps k = Some VNull \<or> map_of ps k = Some VUndefined)"
proof (induction pss)
  case Nil
  then show ?case by simp
next
  case (Cons ps pss)
  have g: "get_prop H (VObj ps) k = Inr (obj_get ps k)"
    by (rule get_prop_record) (use Cons.prems in simp)
  have rest: "\<forall>ps \<in> set pss. map_of ps k = None \<longrightarrow> member H (VObj ps) k = None"
    using Cons.prems by simp
  show ?case
    using Cons.IH[OF rest] obj_get_nullish[of ps k]
    by (auto simp: g simp del: get_prop.simps)
qed

lemma sample_values_records:
  "\<forall>ps \<in> set pss. map_of ps k = None \<longrightarrow> member H (VObj ps) k = None \<Longrightarrow>
   map_result (\<lambda>item. get_prop H item k) (map VObj pss) = Inr (map (\<lambda>ps. obj_get ps k) pss)"
proof (induction pss)
  case Nil
  then show ?case by simp
next
  case (Cons ps pss)
  have g: "get_prop H (VObj ps) k = Inr (obj_get ps k)"
    by (rule get_prop_record) (use Cons.prems in simp)
  have rest: "\<forall>ps \<in> set pss. map_of ps k = None \<longrightarrow> member H (VObj ps) k = None"
    using Cons.prems by simp
  show ?case
    using Cons.IH[OF rest] by (simp add: g del: get_prop.simps)
qed

lemma array_field_records:
  assumes "\<forall>ps \<in> set pss. map_of ps (fst kv) = None \<longrightarrow> member H (VObj ps) (fst kv) = None"
  shows "array_field H (map VObj pss) kv
     = Inr \<lparr>field_name = fst kv, field_type = type_of_sample (snd kv),
            nullable = (\<exists>ps \<in> set pss. map_of ps (fst kv) = None \<or> map_of ps (fst kv) = Some VNull
                          \<or> map_of ps (fst kv) = Some VUndefined),
            sampleValues = map (\<lambda>ps. obj_get ps (fst kv)) (take 5 pss)\<rparr>"
proof -
  have five: "\<forall>ps \<in> set (take 5 pss). map_of ps (fst kv) = None \<longrightarrow> member H (VObj ps) (fst kv) = None"
    using assms by (auto dest: in_set_takeD)
  have "map_result (\<lambda>item. get_prop H item (fst kv)) (take 5 (map VObj pss))
          = Inr (map (\<lambda>ps. obj_get ps (fst kv)) (take 5 pss))"
    using sample_values_records[OF five] by (simp add: take_map)
  then show ?thesis
    by (simp add: array_field_def some_nullish_records[OF assms] inferFieldType_spec)
qed

lemma map_result_all_Inr: "map_result (\<lambda>x. Inr (g x)) xs = Inr (map g xs)"
  by (induction xs) simp_all

lemma map_result_cong_Inr:
  "\<forall>x \<in> set xs. f x = Inr (g x) \<Longrightarrow> map_result f xs = Inr (map g xs)"
  by (induction xs) simp_all

lemma infer_fields_records:
  assumes "\<forall>k \<in> fst ` set first. \<forall>ps \<in> set (first # others).
             map_of ps k = None \<longrightarrow> member H (VObj ps) k = None"
  shows "infer_fields H (VArr (map VObj (first # others)))
     = Inr (map (\<lambda>kv. \<lparr>field_name = fst kv, field_type = type_of_sample (snd kv),
            nullable = (\<exists>ps \<in> set (first # others). map_of ps (fst kv) = None
                          \<or> map_of ps (fst kv) = Some VNull \<or> map_of ps (fst kv) = Some VUndefined),
            sampleValues = map (\<lambda>ps. obj_get ps (fst kv)) (take 5 (first # others))\<rparr>) first)"
proof -
  have "\<forall>kv \<in> set first. array_field H (VObj first # map VObj others) kv
          = Inr \<lparr>field_name = fst kv, field_type = type_of_sample (snd kv),
            nullable = (\<exists>ps \<in> set (first # others). map_of ps (fst kv) = None
                          \<or> map_of ps (fst kv) = Some VNull \<or> map_of ps (fst kv) = Some VUndefined),
            sampleValues = map (\<lambda>ps. obj_get ps (fst kv)) (take 5 (first # others))\<rparr>"
  proof
    fix kv assume kv: "kv \<in> set first"
    then have "fst kv \<in> fst ` set first" by simp
    with assms have "\<forall>ps \<in> set (first # others).
        map_of ps (fst kv) = None \<longrightarrow> member H (VObj ps) (fst kv) = None"
      by blast
    from array_field_records[OF this]
    show "array_field H (VObj first # map VObj others) kv
          = Inr \<lparr>field_name = fst kv, field_type = type_of_sample (snd kv),
            nullable = (\<exists>ps \<in> set (first # others). map_of ps (fst kv) = None
                          \<or> map_of ps (fst kv) = Some VNull \<or> map_of ps (fst kv) = Some VUndefined),
            sampleValues = map (\<lambda>ps. obj_get ps (fst kv)) (take 5 (first # others))\<rparr>"
      by simp
  qed
  from map_result_cong_Inr[OF this] show ?thesis
    by (simp add: infer_fields_def)
qed

text \<open>
  Claim C8, as stated, fails. \<open>nullable\<close> is computed from the reads \<open>item[key]\<close>,
  and such a read finds the members that an element inherits from
  \<open>Object.prototype\<close>. In \<open>[{constructor: 'x'}, {}]\<close> the second element has no
  value at the field \<open>constructor\<close>, and yet the field is not nullable: the read
  returns the inherited constructor function, which is also the second sample value.
\<close>

theorem inferSchema_inherited_name:
  "\<exists>sch. inferSchema example_host (VArr [VObj [(''constructor'', VStr ''x'')], VObj []]) = Inr sch
     \<and> inferred_fields sch
         = [\<lparr>field_name = ''constructor'', field_type = FString, nullable = False,
               sampleValues = [VStr ''x'', VBuiltin ''Object'']\<rparr>]"
  by (simp add: inferSchema_def infer_fields_def array_field_def find_prop_def
        member_example_host standard_member_def inferFieldType_def datePatterns_def Let_def)

text \<open>
  Claim C8, amended. On a non-empty array of record objects, when no field name of the
  first element is, on an element that lacks it, the name of a member that the
  element inherits (such as \<open>constructor\<close> or \<open>toString\<close>), \<open>inferSchema\<close> returns
  one field per property of the first element, in that order and under that name. The
  field's type is inferred from the first element's value: \<open>null\<close> and \<open>undefined\<close>
  give \<open>string\<close>, a number \<open>number\<close>, a boolean \<open>boolean\<close>, an array \<open>array\<close>,
  any other object \<open>object\<close>, a text that starts with \<open>dddd-dd-dd\<close> or
  \<open>dd/dd/dddd\<close> (\<open>d\<close> a decimal digit) \<open>date\<close>, and any other text \<open>string\<close>. The
  field is nullable exactly when some element of the whole array has \<open>null\<close>,
  \<open>undefined\<close> or nothing at that name; its sample values are the values of the
  first five elements at most.
\<close>

theorem inferSchema_record_array:
  assumes "\<forall>k \<in> fst ` set first. \<forall>ps \<in> set (first # others).
             map_of ps k = None \<longrightarrow> member H (VObj ps) k = None"
  shows "\<exists>sch. inferSchema H (VArr (map VObj (first # others))) = Inr sch
     \<and> inferred_fields sch
         = map (\<lambda>kv. \<lparr>field_name = fst kv, field_type = type_of_sample (snd kv),
                    nullable = (\<exists>ps \<in> set (first # others). map_of ps (fst kv) = None
                          \<or> map_of ps (fst kv) = Some VNull \<or> map_of ps (fst kv) = Some VUndefined),
                    sampleValues = map (\<lambda>ps. obj_get ps (fst kv)) (take 5 (first # others))\<rparr>) first
     \<and> map field_name (inferred_fields sch) = map fst first
     \<and> (\<forall>f \<in> set (inferred_fields sch). length (sampleValues f) \<le> 5)"
proof -
  note fs = infer_fields_records[OF assms]
  obtain sch where sch: "inferSchema H (VArr (map VObj (first # others))) = Inr sch"
    and flds: "inferred_fields sch = map (\<lambda>kv. \<lparr>field_name = fst kv, field_type = type_of_sample (snd kv),
                    nullable = (\<exists>ps \<in> set (first # others). map_of ps (fst kv) = None
                          \<or> map_of ps (fst kv) = Some VNull \<or> map_of ps (fst kv) = Some VUndefined),
                    sampleValues = map (\<lambda>ps. obj_get ps (fst kv)) (take 5 (first # others))\<rparr>) first"
    unfolding inferSchema_def fs by (simp add: Let_def)
  have names: "map field_name (inferred_fields sch) = map fst first"
    unfolding flds by (simp add: comp_def)
  have five: "\<forall>f \<in> set (inferred_fields sch). length (sampleValues f) \<le> 5"
    unfolding flds by auto
  show ?thesis
    using sch flds names five by blast
qed

theorem inferSchema_record_array_witness:
  "member example_host (VObj [(''id'', VNum (Fin 2)), (''name'', VNull)]) ''active'' = None
   \<and> (\<exists>sch. inferSchema example_host
          (VArr [VObj [(''id'', VNum (Fin 1)), (''name'', VStr ''x''), (''active'', VBool True),
                       (''tags'', VArr [VStr ''a'']), (''address'', VObj [(''city'', VStr ''Oslo'')]),
                       (''born'', VStr ''2024-01-15T10:00:00Z''), (''joined'', VStr ''01/15/2024''),
                       (''code'', VStr ''2024-1-15''), (''gone'', VNull)],
                 VObj [(''id'', VNum (Fin 2)), (''name'', VNull)]]) = Inr sch
     \<and> map (\<lambda>f. (field_name f, field_type f, nullable f)) (inferred_fields sch)
         = [(''id'', FNumber, False), (''name'', FString, True), (''active'', FBoolean, True),
            (''tags'', FArray, True), (''address'', FObject, True), (''born'', FDate, True),
            (''joined'', FDate, True), (''code'', FString, True), (''gone'', FString, True)]
     \<and> map sampleValues (take 3 (inferred_fields sch))
         = [[VNum (Fin 1), VNum (Fin 2)], [VStr ''x'', VNull], [VBool True, VUndefined]])
   \<and> (\<exists>sch. inferSchema example_host
          (VArr [VObj [(''id'', VNum (Fin 1)), (''name'', VStr ''x'')],
                 VObj [(''id'', VNum (Fin 2)), (''name'', VNull)]]) = Inr sch
     \<and> inferred_fields sch
         = [\<lparr>field_name = ''id'', field_type = FNumber, nullable = False,
               sampleValues = [VNum (Fin 1), VNum (Fin 2)]\<rparr>,
            \<lparr>field_name = ''name'', field_type = FString, nullable = True,
               sampleValues = [VStr ''x'', VNull]\<rparr>])"
proof -
  let ?first = "[(''id'', VNum (Fin 1)), (''name'', VStr ''x''), (''active'', VBool True),
                       (''tags'', VArr [VStr ''a'']), (''address'', VObj [(''city'', VStr ''Oslo'')]),
                       (''born'', VStr ''2024-01-15T10:00:00Z''), (''joined'', VStr ''01/15/2024''),
                       (''code'', VStr ''2024-1-15''), (''gone'', VNull)]"
  let ?second = "[(''id'', VNum (Fin 2)), (''name'', VNull)]"
  have m: "member example_host (VObj ?second) ''active'' = None"
    by (simp add: member_example_host standard_member_def object_prototype_functions_def)
  have inh: "\<forall>k \<in> fst ` set ?first. \<forall>ps \<in> set (?first # [?second]).
             map_of ps k = None \<longrightarrow> member example_host (VObj ps) k = None"
    by (simp add: member_example_host standard_member_def object_prototype_functions_def)
  from inferSchema_record_array[OF inh]
  obtain sch where sch: "inferSchema example_host (VArr (map VObj (?first # [?second]))) = Inr sch"
    and flds: "inferred_fields sch
         = map (\<lambda>kv. \<lparr>field_name = fst kv, field_type = type_of_sample (snd kv),
                    nullable = (\<exists>ps \<in> set (?first # [?second]). map_of ps (fst kv) = None
                          \<or> map_of ps (fst kv) = Some VNull \<or> map_of ps (fst kv) = Some VUndefined),
                    sampleValues = map (\<lambda>ps. obj_get ps (fst kv)) (take 5 (?first # [?second]))\<rparr>) ?first"
    by blast
  have 1: "map (\<lambda>f. (field_name f, field_type f, nullable f)) (inferred_fields sch)
         = [(''id'', FNumber, False), (''name'', FString, True), (''active'', FBoolean, True),
            (''tags'', FArray, True), (''address'', FObject, True), (''born'', FDate, True),
            (''joined'', FDate, True), (''code'', FString, True), (''gone'', FString, True)]"
    unfolding flds by (simp add: decimal_def)
  have 2: "map sampleValues (take 3 (inferred_fields sch))
         = [[VNum (Fin 1), VNum (Fin 2)], [VStr ''x'', VNull], [VBool True, VUndefined]]"
    unfolding flds by (simp add: obj_get_def)
  from sch have 0: "inferSchema example_host (VArr [VObj ?first, VObj ?second]) = Inr sch" by simp
  have big: "\<exists>sch. inferSchema example_host (VArr [VObj ?first, VObj ?second]) = Inr sch
     \<and> map (\<lambda>f. (field_name f, field_type f, nullable f)) (inferred_fields sch)
         = [(''id'', FNumber, False), (''name'', FString, True), (''active'', FBoolean, True),
            (''tags'', FArray, True), (''address'', FObject, True), (''born'', FDate, True),
            (''joined'', FDate, True), (''code'', FString, True), (''gone'', FString, True)]
     \<and> map sampleValues (take 3 (inferred_fields sch))
         = [[VNum (Fin 1), VNum (Fin 2)], [VStr ''x'', VNull], [VBool True, VUndefined]]"
    by (intro conjI exI[of _ sch]) (rule 0 1 2)+
  have small: "\<exists>sch. inferSchema example_host
          (VArr [VObj [(''id'', VNum (Fin 1)), (''name'', VStr ''x'')],
                 VObj [(''id'', VNum (Fin 2)), (''name'', VNull)]]) = Inr sch
     \<and> inferred_fields sch
         = [\<lparr>field_name = ''id'', field_type = FNumber, nullable = False,
               sampleValues = [VNum (Fin 1), VNum (Fin 2)]\<rparr>,
            \<lparr>field_name = ''name'', field_type = FString, nullable = True,
               sampleValues = [VStr ''x'', VNull]\<rparr>]"
    using inferSchema_record_array[of "[(''id'', VNum (Fin 1)), (''name'', VStr ''x'')]"
        "[[(''id'', VNum (Fin 2)), (''name'', VNull)]]" example_host]
    by (auto simp: obj_get_def)
  from m big small show ?thesis by (intro conjI)
qed

section \<open>The CSV codec: properties\<close>

lemma split_on_nonempty: "split_on d s \<noteq> []"
  by (induction s) (auto split: list.splits)

lemma split_on_no_sep: "d \<notin> set s \<Longrightarrow> split_on d s = [s]"
  by (induction s) auto

lemma split_on_append_sep:
  "d \<notin> set x \<Longrightarrow> split_on d (x @ d # rest) = x # split_on d rest"
  by (induction x) (auto split: list.splits)

lemma split_on_join:
  "xs \<noteq> [] \<Longrightarrow> \<forall>x \<in> set xs. d \<notin> set x \<Longrightarrow> split_on d (join [d] xs) = xs"
proof (induction xs rule: induct_list012)
  case 1
  then show ?case by simp
next
  case (2 x)
  then show ?case by (simp add: split_on_no_sep)
next
  case (3 x y zs)
  then have "split_on d (join [d] (y # zs)) = y # zs" by simp
  moreover have "d \<notin> set x" using 3 by simp
  ultimately show ?case by (simp add: split_on_append_sep)
qed

lemma set_join: "set (join sep xs) \<subseteq> set sep \<union> \<Union> (set ` set xs)"
  by (induction sep xs rule: join.induct) auto

lemma all_dropWhile: "(\<forall>x \<in> set (dropWhile P s). P x) \<longleftrightarrow> (\<forall>x \<in> set s. P x)"
proof
  assume a: "\<forall>x \<in> set (dropWhile P s). P x"
  have "set s = set (takeWhile P s) \<union> set (dropWhile P s)"
    by (metis set_append takeWhile_dropWhile_id)
  then show "\<forall>x \<in> set s. P x"
    using a by (auto dest: set_takeWhileD)
next
  assume "\<forall>x \<in> set s. P x"
  then show "\<forall>x \<in> set (dropWhile P s). P x"
    by (auto dest: set_dropWhileD)
qed

lemma trim_empty_iff: "trim s = [] \<longleftrightarrow> (\<forall>c \<in> set s. is_space c)"
  by (simp add: trim_def dropWhile_eq_Nil_conv all_dropWhile)

lemma dropWhile_id: "xs \<noteq> [] \<Longrightarrow> \<not> P (hd xs) \<Longrightarrow> dropWhile P xs = xs"
  by (cases xs) auto

lemma trim_id: "s \<noteq> [] \<Longrightarrow> \<not> is_space (hd s) \<Longrightarrow> \<not> is_space (last s) \<Longrightarrow> trim s = s"
proof -
  assume ne: "s \<noteq> []" and h: "\<not> is_space (hd s)" and l: "\<not> is_space (last s)"
  have 1: "dropWhile is_space s = s"
    using ne h by (rule dropWhile_id)
  have "rev s \<noteq> []" and "\<not> is_space (hd (rev s))" using ne l by (simp_all add: hd_rev)
  then have 2: "dropWhile is_space (rev s) = rev s"
    by (rule dropWhile_id)
  show ?thesis by (simp add: trim_def 1 2)
qed

lemma hex_digit_mem: "n < 16 \<Longrightarrow> hex_digit n \<in> set ''0123456789abcdef''"
  unfolding hex_digit_def by (rule nth_mem) simp

lemma json_escape_chars:
  "x \<in> set (json_escape c) \<Longrightarrow> x = c \<and> 32 \<le> (of_char c :: nat) \<or> x \<in> set ''bfnrtu0123456789abcdef''
     \<or> x = CHR 0x5C \<or> x = CHR 0x22"
proof -
  assume x: "x \<in> set (json_escape c)"
  have h1: "hex_digit (of_char c div 16) \<in> set ''0123456789abcdef''"
    by (rule hex_digit_mem) (simp add: div_less_iff_less_mult)
  have h2: "hex_digit (of_char c mod 16) \<in> set ''0123456789abcdef''"
    by (rule hex_digit_mem) simp
  show ?thesis
    using x h1 h2 unfolding json_escape_def Let_def
    by (auto split: if_splits)
qed

lemma json_escape_no_newline: "CHR 0x0A \<notin> set (json_escape c)"
  using json_escape_chars[of "CHR 0x0A" c] by auto

lemma json_escape_no_comma: "c \<noteq> CHR '','' \<Longrightarrow> CHR '','' \<notin> set (json_escape c)"
  using json_escape_chars[of "CHR '',''" c] by auto

lemma json_quote_no_newline: "CHR 0x0A \<notin> set (json_quote v)"
  by (auto simp: json_quote_def json_escape_no_newline)

lemma json_quote_no_comma: "CHR '','' \<notin> set v \<Longrightarrow> CHR '','' \<notin> set (json_quote v)"
proof -
  assume a: "CHR '','' \<notin> set v"
  have "CHR '','' \<notin> set (concat (map json_escape v))"
  proof
    assume "CHR '','' \<in> set (concat (map json_escape v))"
    then obtain c where "c \<in> set v" "CHR '','' \<in> set (json_escape c)" by auto
    with a json_escape_no_comma[of c] show False by auto
  qed
  then show ?thesis by (simp add: json_quote_def)
qed

lemma json_quote_ends: "json_quote v \<noteq> [] \<and> hd (json_quote v) = CHR 0x22 \<and> last (json_quote v) = CHR 0x22"
  by (simp add: json_quote_def)


lemma not_space_quote: "\<not> is_space (CHR 0x22)"
  by (simp add: is_space_def)

lemma json_quote_trim: "trim (json_quote v) = json_quote v"
  using json_quote_ends[of v] not_space_quote by (intro trim_id) simp_all

lemma json_quote_not_blank: "trim (json_quote v) \<noteq> []"
  using json_quote_ends[of v] by (simp add: json_quote_trim)

lemma json_escape_length: "1 \<le> length (json_escape c)"
  unfolding json_escape_def Let_def by (simp split: if_splits)

lemma concat_escape_length: "length v \<le> length (concat (map json_escape v))"
proof (induction v)
  case Nil
  then show ?case by simp
next
  case (Cons c v)
  with json_escape_length[of c] show ?case by simp
qed

lemma json_quote_longer: "json_quote v \<noteq> v"
proof -
  have "length v < length (json_quote v)"
    using concat_escape_length[of v] by (simp add: json_quote_def)
  then show ?thesis by auto
qed

lemma map_of_text_record:
  "map_of (map (\<lambda>kv. (fst kv, VStr (snd kv))) r) k = map_option VStr (map_of r k)"
  by (induction r) auto

lemma get_prop_text_record:
  "k \<in> fst ` set r \<Longrightarrow>
     get_prop H (text_record r) k = Inr (case map_of r k of Some v \<Rightarrow> VStr v | None \<Rightarrow> VUndefined)"
proof -
  assume "k \<in> fst ` set r"
  then obtain v where "map_of r k = Some v"
    by (cases "map_of r k") (auto simp: map_of_eq_None_iff)
  then show ?thesis
    by (simp add: text_record_def find_prop_def map_of_text_record)
qed

lemma csv_cell_text:
  "csv_cell H (case map_of r k of Some v \<Rightarrow> VStr v | None \<Rightarrow> VUndefined) = json_quote (field_text r k)"
  by (simp add: csv_cell_def field_text_def split: option.splits)

lemma csv_line_text_record:
  assumes "set ks \<subseteq> fst ` set r"
  shows "csv_line H ks (text_record r) = Inr (join '','' (map (\<lambda>k. json_quote (field_text r k)) ks))"
proof -
  have "\<forall>h \<in> set ks. (case get_prop H (text_record r) h of Inl e \<Rightarrow> Inl e | Inr v \<Rightarrow> Inr (csv_cell H v))
          = Inr (json_quote (field_text r h))"
  proof
    fix h assume "h \<in> set ks"
    then have "h \<in> fst ` set r" using assms by blast
    from get_prop_text_record[OF this, of H]
    show "(case get_prop H (text_record r) h of Inl e \<Rightarrow> Inl e | Inr v \<Rightarrow> Inr (csv_cell H v))
          = Inr (json_quote (field_text r h))"
      by (simp add: csv_cell_text del: get_prop.simps)
  qed
  from map_result_cong_Inr[OF this] show ?thesis
    by (simp add: csv_line_def)
qed

lemma toCSV_text_records:
  assumes "\<forall>r \<in> set (first # others). set (map fst first) \<subseteq> fst ` set r"
  shows "toCSV H (map text_record (first # others))
     = Inr (join [CHR 0x0A]
              (join '','' (map fst first)
               # map (\<lambda>r. join '','' (map (\<lambda>k. json_quote (field_text r k)) (map fst first)))
                   (first # others)))"
proof -
  have keys: "object_keys (text_record first) = Inr (map fst first)"
    by (simp add: object_keys_def text_record_def comp_def)
  have lines: "map_result (csv_line H (map fst first)) (map text_record (first # others))
      = Inr (map (\<lambda>r. join '','' (map (\<lambda>k. json_quote (field_text r k)) (map fst first)))
               (first # others))"
  proof -
    have "\<forall>x \<in> set (map text_record (first # others)).
            \<exists>r \<in> set (first # others). x = text_record r \<and> set (map fst first) \<subseteq> fst ` set r"
      using assms by auto
    have "map_result (csv_line H (map fst first)) (map text_record rs)
            = Inr (map (\<lambda>r. join '','' (map (\<lambda>k. json_quote (field_text r k)) (map fst first))) rs)"
      if "\<forall>r \<in> set rs. set (map fst first) \<subseteq> fst ` set r" for rs
      using that by (induction rs) (simp_all add: csv_line_text_record)
    from this[OF assms] show ?thesis .
  qed
  show ?thesis
    using keys lines by (simp add: toCSV_def)
qed

lemma hd_subset_join: "xs \<noteq> [] \<Longrightarrow> set (hd xs) \<subseteq> set (join sep xs)"
  by (induction sep xs rule: join.induct) auto

lemma join_not_blank:
  "xs \<noteq> [] \<Longrightarrow> hd xs \<noteq> [] \<Longrightarrow> \<not> is_space (hd (hd xs)) \<Longrightarrow> trim (join sep xs) \<noteq> []"
proof -
  assume a: "xs \<noteq> []" "hd xs \<noteq> []" "\<not> is_space (hd (hd xs))"
  have "hd (hd xs) \<in> set (join sep xs)"
    using hd_subset_join[OF a(1), of sep] a(2) by auto
  with a(3) show ?thesis by (auto simp: trim_empty_iff)
qed

lemma join_no_char:
  "d \<notin> set sep \<Longrightarrow> \<forall>x \<in> set xs. d \<notin> set x \<Longrightarrow> d \<notin> set (join sep xs)"
  using set_join[of sep xs] by auto

lemma csv_row_fold_distinct:
  "distinct (map fst acc) \<Longrightarrow>
     distinct (map fst (foldl (\<lambda>row (header, idx). obj_set row (trim header) (g idx)) acc hs))"
proof (induction hs arbitrary: acc)
  case Nil
  then show ?case by simp
next
  case (Cons h hs)
  show ?case
    using Cons.IH[OF distinct_obj_set[OF Cons.prems]] by (cases h) simp
qed

lemma map_of_zip_notin: "k \<notin> set xs \<Longrightarrow> map_of (zip xs ys) k = None"
  by (auto simp: map_of_eq_None_iff dest: set_zip_leftD)

lemma map_add_upd_left: "M k = None \<Longrightarrow> (m(k \<mapsto> v)) ++ M = m ++ (M(k \<mapsto> v))"
  by (auto simp: fun_eq_iff map_add_def split: option.splits)

lemma csv_row_fold_map_of:
  "distinct (map trim hs) \<Longrightarrow> ''__proto__'' \<notin> set (map trim hs) \<Longrightarrow>
     map_of (foldl (\<lambda>row (header, idx). obj_set row (trim header) (g idx)) acc
               (zip hs [a..<a + length hs]))
       = map_of acc ++ map_of (zip (map trim hs) (map g [a..<a + length hs]))"
proof (induction hs arbitrary: a acc)
  case Nil
  then show ?case by simp
next
  case (Cons h hs)
  let ?step = "\<lambda>row (header, idx). obj_set row (trim header) (g idx)"
  let ?M = "map_of (zip (map trim hs) (map g [Suc a..<Suc a + length hs]))"
  have upt: "[a..<a + length (h # hs)] = a # [Suc a..<Suc a + length hs]"
    by (subst upt_rec) simp
  have d: "distinct (map trim hs)" and fresh: "trim h \<notin> set (map trim hs)"
    using Cons.prems by auto
  have np: "trim h \<noteq> ''__proto__''" and nps: "''__proto__'' \<notin> set (map trim hs)"
    using Cons.prems by auto
  have nd: "?M (trim h) = None"
    using fresh by (rule map_of_zip_notin)
  have "foldl ?step acc (zip (h # hs) [a..<a + length (h # hs)])
          = foldl ?step (obj_set acc (trim h) (g a)) (zip hs [Suc a..<Suc a + length hs])"
    by (simp only: upt zip_Cons_Cons foldl_Cons case_prod_conv)
  also have "map_of \<dots> = map_of (obj_set acc (trim h) (g a)) ++ ?M"
    by (rule Cons.IH[OF d nps])
  also have "\<dots> = (map_of acc)(trim h \<mapsto> g a) ++ ?M"
    using np by (simp only: map_of_obj_set[of "trim h" acc "g a"] simp_thms)
  also have "\<dots> = map_of acc ++ (?M(trim h \<mapsto> g a))"
    using nd by (rule map_add_upd_left)
  also have "?M(trim h \<mapsto> g a) = map_of (zip (map trim (h # hs)) (map g [a..<a + length (h # hs)]))"
    by (simp only: upt list.map zip_Cons_Cons map_of.simps fst_conv snd_conv)
  finally show ?case .
qed

lemma csv_row_quoted:
  assumes "distinct ks" and "\<forall>k \<in> set ks. trim k = k" and "\<forall>c \<in> set cells. trim c = c"
    and "length cells = length ks" and "''__proto__'' \<notin> set ks"
  shows "map_of (csv_row ks cells) = map_of (zip ks (map VStr cells))
       \<and> distinct (map fst (csv_row ks cells))"
proof -
  let ?g = "\<lambda>idx. if idx < length cells then VStr (trim (cells ! idx)) else VUndefined"
  have t: "map trim ks = ks"
    by (rule map_idI) (simp add: assms(2))
  have g: "map ?g [0..<length ks] = map VStr cells"
  proof (rule nth_equalityI)
    show "length (map ?g [0..<length ks]) = length (map VStr cells)"
      using assms(4) by simp
  next
    fix i assume "i < length (map ?g [0..<length ks])"
    then have i: "i < length cells" using assms(4) by simp
    then have "cells ! i \<in> set cells" by simp
    then have "trim (cells ! i) = cells ! i" using assms(3) by blast
    then show "map ?g [0..<length ks] ! i = map VStr cells ! i"
      using i assms(4) by simp
  qed
  have d: "distinct (map trim ks)" using assms(1) by (simp only: t)
  have np: "''__proto__'' \<notin> set (map trim ks)" unfolding t by (rule assms(5))
  have "map_of (foldl (\<lambda>row (header, idx). obj_set row (trim header) (?g idx)) []
               (zip ks [0..<0 + length ks]))
          = map_of [] ++ map_of (zip (map trim ks) (map ?g [0..<0 + length ks]))"
    by (rule csv_row_fold_map_of[OF d np])
  then have m: "map_of (csv_row ks cells) = map_of (zip ks (map VStr cells))"
    unfolding csv_row_def by (simp only: t g add_0 map_of.simps empty_map_add)
  have "distinct (map fst (csv_row ks cells))"
    unfolding csv_row_def by (rule csv_row_fold_distinct) simp
  with m show ?thesis by simp
qed

lemma zip_quoted_record:
  assumes "set (map fst r) = set ks"
  shows "map_of (zip ks (map VStr (map (\<lambda>k. json_quote (field_text r k)) ks))) = map_of (quoted_record r)"
proof
  fix k
  have q: "map_of (quoted_record r) k = map_option (\<lambda>v. VStr (json_quote v)) (map_of r k)"
    unfolding quoted_record_def by (induction r) auto
  have z: "map_of (zip ks (map (\<lambda>k. VStr (json_quote (field_text r k))) ks)) k
             = (if k \<in> set ks then Some (VStr (json_quote (field_text r k))) else None)"
    by (induction ks) auto
  show "map_of (zip ks (map VStr (map (\<lambda>k. json_quote (field_text r k)) ks))) k = map_of (quoted_record r) k"
  proof (cases "k \<in> set ks")
    case True
    then have "k \<in> fst ` set r" using assms by auto
    then obtain v where "map_of r k = Some v"
      by (cases "map_of r k") (auto simp: map_of_eq_None_iff)
    then show ?thesis using True z q by (simp add: field_text_def comp_def)
  next
    case False
    then have "map_of r k = None" using assms by (auto simp: map_of_eq_None_iff)
    then show ?thesis using False z q by (simp add: comp_def)
  qed
qed

lemma parseCSV_lines:
  assumes "trim header \<noteq> []" and "\<forall>l \<in> set ls. trim l \<noteq> []"
    and "CHR 0x0A \<notin> set header" and "\<forall>l \<in> set ls. CHR 0x0A \<notin> set l"
  shows "parseCSV (join [CHR 0x0A] (header # ls))
           = map (\<lambda>line. VObj (csv_row (split_on (CHR '','') header) (split_on (CHR '','') line))) ls"
proof -
  have s: "split_on (CHR 0x0A) (join [CHR 0x0A] (header # ls)) = header # ls"
    by (rule split_on_join) (use assms(3,4) in auto)
  have f: "filter (\<lambda>line. trim line \<noteq> []) (header # ls) = header # ls"
    using assms(1,2) by (simp add: filter_id_conv)
  show ?thesis
    unfolding parseCSV_def s f by simp
qed

text \<open>
  Claim C5, amended. For a non-empty array of flat records with text values, where
  the first record has at least one field, its field names are distinct, non-empty,
  free of commas and line feeds and of surrounding white space, and none of them is
  \<open>__proto__\<close>, every record has the field names of the first, and no value
  contains a comma: \<open>toCSV\<close> returns a text, and
  \<open>parseCSV\<close> of that text returns as many records, each with the fields of the
  original and every value replaced by its JSON string literal (the value in double
  quotes, with JSON escapes). The result is never the original array.
\<close>

theorem csv_round_trip_keeps_quotes:
  assumes "map fst first \<noteq> []" and "distinct (map fst first)"
    and "\<forall>k \<in> set (map fst first). k \<noteq> [] \<and> \<not> is_space (hd k) \<and> \<not> is_space (last k)
            \<and> CHR '','' \<notin> set k \<and> CHR 0x0A \<notin> set k \<and> k \<noteq> ''__proto__''"
    and "\<forall>r \<in> set (first # others). set (map fst r) = set (map fst first)
            \<and> (\<forall>v \<in> set (map snd r). CHR '','' \<notin> set v)"
  shows "\<exists>csv decoded. toCSV H (map text_record (first # others)) = Inr csv
           \<and> parseCSV csv = map VObj decoded
           \<and> length decoded = length (first # others)
           \<and> (\<forall>i < length (first # others).
                 distinct (map fst (decoded ! i))
                 \<and> map_of (decoded ! i) = map_of (quoted_record ((first # others) ! i)))
           \<and> parseCSV csv \<noteq> map text_record (first # others)"
proof -
  let ?ks = "map fst first"
  let ?rs = "first # others"
  let ?cells = "\<lambda>r. map (\<lambda>k. json_quote (field_text r k)) ?ks"
  let ?header = "join '','' ?ks"
  let ?line = "\<lambda>r. join '','' (?cells r)"
  let ?text = "join [CHR 0x0A] (?header # map ?line ?rs)"
  let ?decoded = "map (\<lambda>r. csv_row ?ks (?cells r)) ?rs"
  have enc: "toCSV H (map text_record ?rs) = Inr ?text"
    by (rule toCSV_text_records) (use assms(4) in auto)
  have no_proto: "''__proto__'' \<notin> set ?ks"
    using assms(3) by blast
  \<comment> \<open>the header line\<close>
  have k_trim: "\<forall>k \<in> set ?ks. trim k = k"
    using assms(3) by (auto intro: trim_id)
  have h_blank: "trim ?header \<noteq> []"
  proof (rule join_not_blank)
    show "?ks \<noteq> []" by (rule assms(1))
    have "hd ?ks \<in> set ?ks" using assms(1) by (rule hd_in_set)
    then show "hd ?ks \<noteq> []" and "\<not> is_space (hd (hd ?ks))"
      using assms(3) by blast+
  qed
  have h_nl: "CHR 0x0A \<notin> set ?header"
    by (rule join_no_char) (use assms(3) in auto)
  have h_split: "split_on (CHR '','') ?header = ?ks"
    by (rule split_on_join) (use assms(1,3) in auto)
  \<comment> \<open>the line of a record\<close>
  have c_ne: "?cells r \<noteq> []" for r
    using assms(1) by simp
  have l_blank: "trim (?line r) \<noteq> []" for r
  proof (rule join_not_blank)
    show "?cells r \<noteq> []" by (rule c_ne)
    have "hd (?cells r) = json_quote (field_text r (hd ?ks))"
      using assms(1) by (simp add: hd_map)
    then show "hd (?cells r) \<noteq> []" and "\<not> is_space (hd (hd (?cells r)))"
      using json_quote_ends[of "field_text r (hd ?ks)"] not_space_quote by simp_all
  qed
  have l_nl: "CHR 0x0A \<notin> set (?line r)" for r
    by (rule join_no_char) (auto simp: json_quote_no_newline)
  have ft: "CHR '','' \<notin> set (field_text r k)" if "r \<in> set ?rs" for r k
  proof (cases "map_of r k")
    case None
    then show ?thesis by (simp add: field_text_def)
  next
    case (Some v)
    then have "v \<in> set (map snd r)"
      by (auto dest!: map_of_SomeD intro: rev_image_eqI)
    then show ?thesis
      using assms(4) that Some by (auto simp: field_text_def)
  qed
  have l_split: "split_on (CHR '','') (?line r) = ?cells r" if "r \<in> set ?rs" for r
  proof (rule split_on_join)
    show "?cells r \<noteq> []" by (rule c_ne)
    show "\<forall>x \<in> set (?cells r). CHR '','' \<notin> set x"
    proof
      fix x assume "x \<in> set (?cells r)"
      then obtain k where "x = json_quote (field_text r k)" by auto
      then show "CHR '','' \<notin> set x"
        using json_quote_no_comma[OF ft[OF that, of k]] by simp
    qed
  qed
  \<comment> \<open>decoding\<close>
  have "parseCSV ?text
          = map (\<lambda>line. VObj (csv_row (split_on (CHR '','') ?header) (split_on (CHR '','') line)))
              (map ?line ?rs)"
    by (rule parseCSV_lines) (use h_blank l_blank h_nl l_nl in auto)
  also have "\<dots> = map (\<lambda>r. VObj (csv_row ?ks (split_on (CHR '','') (?line r)))) ?rs"
    unfolding h_split by (simp add: comp_def)
  also have "\<dots> = map (\<lambda>r. VObj (csv_row ?ks (?cells r))) ?rs"
    by (rule map_cong[OF refl]) (simp only: l_split)
  finally have dec: "parseCSV ?text = map VObj ?decoded"
    by (simp add: comp_def)
  have len: "length ?decoded = length ?rs" by simp
  have row: "distinct (map fst (csv_row ?ks (?cells r)))
             \<and> map_of (csv_row ?ks (?cells r)) = map_of (quoted_record r)" if "r \<in> set ?rs" for r
  proof -
    have "\<forall>c \<in> set (?cells r). trim c = c"
      by (auto simp: json_quote_trim)
    from csv_row_quoted[OF assms(2) k_trim this _ no_proto]
    have "map_of (csv_row ?ks (?cells r)) = map_of (zip ?ks (map VStr (?cells r)))"
      and d: "distinct (map fst (csv_row ?ks (?cells r)))"
      by simp_all
    moreover have "set (map fst r) = set ?ks" using assms(4) that by blast
    ultimately show ?thesis
      using zip_quoted_record[of r ?ks] by simp
  qed
  have rows: "\<forall>i < length ?rs. distinct (map fst (?decoded ! i))
                 \<and> map_of (?decoded ! i) = map_of (quoted_record (?rs ! i))"
  proof (intro allI impI)
    fix i assume i: "i < length ?rs"
    then have "?rs ! i \<in> set ?rs" by (rule nth_mem)
    from row[OF this] show "distinct (map fst (?decoded ! i))
                 \<and> map_of (?decoded ! i) = map_of (quoted_record (?rs ! i))"
      using i by (simp only: nth_map)
  qed
  have differ: "parseCSV ?text \<noteq> map text_record ?rs"
  proof
    assume "parseCSV ?text = map text_record ?rs"
    then have "VObj (csv_row ?ks (?cells first)) = text_record first"
      unfolding dec by simp
    then have "map_of (csv_row ?ks (?cells first)) = map_of (map (\<lambda>kv. (fst kv, VStr (snd kv))) first)"
      by (simp add: text_record_def)
    then have eq: "map_of (quoted_record first) = map_of (map (\<lambda>kv. (fst kv, VStr (snd kv))) first)"
      using row[of first] by simp
    obtain k v rest where first: "first = (k, v) # rest"
      using assms(1) by (cases first) auto
    have "map_of (quoted_record first) k = Some (VStr (json_quote v))"
      by (simp add: first quoted_record_def)
    moreover have "map_of (map (\<lambda>kv. (fst kv, VStr (snd kv))) first) k = Some (VStr v)"
      by (simp add: first)
    ultimately show False
      using eq json_quote_longer[of v] by simp
  qed
  show ?thesis
    using enc dec len rows differ by blast
qed

text \<open>
  Claim C5, as stated, fails. \<open>toCSV\<close> writes every value with \<open>JSON.stringify\<close>, so
  the text values \<open>1\<close> and \<open>2\<close> are written with double quotes around them;
  \<open>parseCSV\<close> splits at commas and trims, and has no notion of quotes. Decoding the
  encoding of \<open>[{a:"1", b:"2"}]\<close> gives the record whose values are the three-character
  texts \<open>"1"\<close> and \<open>"2"\<close>, quotes included.
\<close>

theorem csv_round_trip_adds_quotes:
  "toCSV example_host [VObj [(''a'', VStr ''1''), (''b'', VStr ''2'')]]
     = Inr [CHR ''a'', CHR '','', CHR ''b'', CHR 0x0A,
            CHR 0x22, CHR ''1'', CHR 0x22, CHR '','', CHR 0x22, CHR ''2'', CHR 0x22]
   \<and> parseCSV [CHR ''a'', CHR '','', CHR ''b'', CHR 0x0A,
               CHR 0x22, CHR ''1'', CHR 0x22, CHR '','', CHR 0x22, CHR ''2'', CHR 0x22]
     = [VObj [(''a'', VStr [CHR 0x22, CHR ''1'', CHR 0x22]), (''b'', VStr [CHR 0x22, CHR ''2'', CHR 0x22])]]
   \<and> parseCSV [CHR ''a'', CHR '','', CHR ''b'', CHR 0x0A,
               CHR 0x22, CHR ''1'', CHR 0x22, CHR '','', CHR 0x22, CHR ''2'', CHR 0x22]
     \<noteq> [VObj [(''a'', VStr ''1''), (''b'', VStr ''2'')]]"
proof -
  have enc: "toCSV example_host [VObj [(''a'', VStr ''1''), (''b'', VStr ''2'')]]
     = Inr [CHR ''a'', CHR '','', CHR ''b'', CHR 0x0A,
            CHR 0x22, CHR ''1'', CHR 0x22, CHR '','', CHR 0x22, CHR ''2'', CHR 0x22]"
    by (simp add: toCSV_def object_keys_def csv_line_def csv_cell_def json_quote_def json_escape_def
          find_prop_def)
  have dec: "parseCSV [CHR ''a'', CHR '','', CHR ''b'', CHR 0x0A,
               CHR 0x22, CHR ''1'', CHR 0x22, CHR '','', CHR 0x22, CHR ''2'', CHR 0x22]
     = [VObj [(''a'', VStr [CHR 0x22, CHR ''1'', CHR 0x22]), (''b'', VStr [CHR 0x22, CHR ''2'', CHR 0x22])]]"
    by (simp add: parseCSV_def csv_row_def trim_def is_space_def obj_set_def array_index_def
          is_digit_def upt_rec)
  show ?thesis
    unfolding enc dec by simp
qed

theorem csv_round_trip_keeps_quotes_witness:
  "map fst row1 \<noteq> [] \<and> distinct (map fst row1)
   \<and> list_all (\<lambda>k. k \<noteq> [] \<and> \<not> is_space (hd k) \<and> \<not> is_space (last k)
                    \<and> CHR '','' \<notin> set k \<and> CHR 0x0A \<notin> set k \<and> k \<noteq> ''__proto__'') (map fst row1)
   \<and> list_all (\<lambda>r. set (map fst r) = set (map fst row1)
                    \<and> list_all (\<lambda>v. CHR '','' \<notin> set v) (map snd r)) [row1, row2]
   \<and> (\<exists>csv decoded. toCSV example_host (map text_record [row1, row2]) = Inr csv
         \<and> parseCSV csv = map VObj decoded
         \<and> length decoded = 2
         \<and> map_of (decoded ! 0) = map_of (quoted_record row1)
         \<and> map_of (decoded ! 1) = map_of (quoted_record row2)
         \<and> parseCSV csv \<noteq> map text_record [row1, row2])"
proof -
  have h1: "map fst row1 \<noteq> []" and h2: "distinct (map fst row1)"
    by (simp_all add: row1_def)
  have h3: "\<forall>k \<in> set (map fst row1). k \<noteq> [] \<and> \<not> is_space (hd k) \<and> \<not> is_space (last k)
            \<and> CHR '','' \<notin> set k \<and> CHR 0x0A \<notin> set k \<and> k \<noteq> ''__proto__''"
    by (simp add: row1_def is_space_def)
  have h4: "\<forall>r \<in> set (row1 # [row2]). set (map fst r) = set (map fst row1)
            \<and> (\<forall>v \<in> set (map snd r). CHR '','' \<notin> set v)"
    by (auto simp: row1_def row2_def)
  from csv_round_trip_keeps_quotes[OF h1 h2 h3 h4, of example_host]
  obtain csv decoded where r: "toCSV example_host (map text_record [row1, row2]) = Inr csv"
      "parseCSV csv = map VObj decoded" "length decoded = 2"
      "\<forall>i < 2. distinct (map fst (decoded ! i)) \<and> map_of (decoded ! i) = map_of (quoted_record ([row1, row2] ! i))"
      "parseCSV csv \<noteq> map text_record [row1, row2]"
    by auto
  from r(4) have "map_of (decoded ! 0) = map_of (quoted_record row1)"
    and "map_of (decoded ! 1) = map_of (quoted_record row2)"
    by (auto simp: nth_Cons')
  with r(1,2,3,5) have "\<exists>csv decoded. toCSV example_host (map text_record [row1, row2]) = Inr csv
         \<and> parseCSV csv = map VObj decoded
         \<and> length decoded = 2
         \<and> map_of (decoded ! 0) = map_of (quoted_record row1)
         \<and> map_of (decoded ! 1) = map_of (quoted_record row2)
         \<and> parseCSV csv \<noteq> map text_record [row1, row2]"
    by blast
  moreover have "list_all (\<lambda>k. k \<noteq> [] \<and> \<not> is_space (hd k) \<and> \<not> is_space (last k)
                    \<and> CHR '','' \<notin> set k \<and> CHR 0x0A \<notin> set k \<and> k \<noteq> ''__proto__'') (map fst row1)"
    using h3 by (simp add: list_all_iff)
  moreover have "list_all (\<lambda>r. set (map fst r) = set (map fst row1)
                    \<and> list_all (\<lambda>v. CHR '','' \<notin> set v) (map snd r)) [row1, row2]"
    using h4 by (simp add: list_all_iff)
  ultimately show ?thesis
    using h1 h2 by blast
qed

section \<open>Further properties\<close>

lemma mapFields_loop_array_absent:
  "\<forall>s \<in> set (map fst mapping). find_prop H (VArr items) s = None \<Longrightarrow>
     mapFields_loop H (VArr items) mapping acc = Inr acc"
  by (induction mapping arbitrary: acc) auto

text \<open>
  An array under a configured \<open>sourceFields\<close>. An array has \<open>typeof\<close> \<open>object\<close>,
  so \<open>applySchemaMapping\<close> hands it to \<open>mapFields\<close>; when no source field of the
  mapping is found on the array (it is not \<open>length\<close>, not an index and not an
  inherited member), the result is the empty object, and the transforms, which act on
  arrays only, leave it as it is. The records of a decoded CSV text are lost this way.
\<close>

theorem applySchemaMapping_array_becomes_object:
  assumes "schemaMapping cfg = Some sm" and "sourceFields sm = Some mapping"
    and "\<forall>s \<in> set (map fst mapping). find_prop H (VArr items) s = None"
  shows "applySchemaMapping H cfg (VArr items)
           = Inr \<lparr>mr_data = VObj [], mapped = length mapping,
                  transformed = (case transforms sm of None \<Rightarrow> 0 | Some ts \<Rightarrow> length ts)\<rparr>"
  using assms
  by (simp add: applySchemaMapping_def mapFields_def mapFields_loop_array_absent
        applyTransforms_not_array split: option.splits)

theorem applySchemaMapping_array_becomes_object_witness:
  "schemaMapping cfg_csv = Some \<lparr>sourceFields = Some [(''a'', ''x''), (''b'', ''y'')], transforms = Some rules0\<rparr>
   \<and> list_all (\<lambda>s. find_prop example_host (VArr [VObj [(''a'', VStr ''1''), (''b'', VStr ''2'')]]) s = None)
        (map fst [(''a'', ''x''), (''b'', ''y'')])
   \<and> applySchemaMapping example_host cfg_csv
         (VArr [VObj [(''a'', VStr ''1''), (''b'', VStr ''2'')]])
       = Inr \<lparr>mr_data = VObj [], mapped = 2, transformed = 2\<rparr>
   \<and> transform example_host cfg_csv ''2024-01-15T00:00:01.200Z''
         (VStr [CHR ''a'', CHR '','', CHR ''b'', CHR 0x0A, CHR ''1'', CHR '','', CHR ''2'']) None
       = Inr \<lparr>tr_data = VObj [],
              tr_metadata = \<lparr>tm_sourceFormat = ''csv'', tm_targetFormat = ''json'', fieldsMapped = 2,
                             fieldsTransformed = 2, tm_timestamp = ''2024-01-15T00:00:01.200Z''\<rparr>\<rparr>"
proof -
  let ?sm = "\<lparr>sourceFields = Some [(''a'', ''x''), (''b'', ''y'')], transforms = Some rules0\<rparr>"
  have c: "schemaMapping cfg_csv = Some ?sm" by (simp add: cfg_csv_def)
  have s: "sourceFields ?sm = Some [(''a'', ''x''), (''b'', ''y'')]" by simp
  have k: "\<forall>s \<in> set (map fst [(''a'', ''x''), (''b'', ''y'')]).
             find_prop example_host (VArr [VObj [(''a'', VStr ''1''), (''b'', VStr ''2'')]]) s = None"
    by (simp add: find_prop_def array_index_def is_digit_def member_example_host standard_member_def
          object_prototype_functions_def)
  have n: "length rules0 = 2" by (simp add: rules0_def)
  have f: "sourceFormat cfg_csv = ''csv''" "targetFormat cfg_csv = ''json''"
    by (simp_all add: cfg_csv_def cfg0_def)
  have d: "parseCSV [CHR ''a'', CHR '','', CHR ''b'', CHR 0x0A, CHR ''1'', CHR '','', CHR ''2'']
             = [VObj [(''a'', VStr ''1''), (''b'', VStr ''2'')]]"
    by (simp add: parseCSV_def csv_row_def trim_def is_space_def obj_set_def array_index_def
          is_digit_def upt_rec)
  note m = applySchemaMapping_array_becomes_object[OF c s k]
  have t: "transform example_host cfg_csv ''2024-01-15T00:00:01.200Z''
         (VStr [CHR ''a'', CHR '','', CHR ''b'', CHR 0x0A, CHR ''1'', CHR '','', CHR ''2'']) None
       = Inr \<lparr>tr_data = VObj [],
              tr_metadata = \<lparr>tm_sourceFormat = ''csv'', tm_targetFormat = ''json'', fieldsMapped = 2,
                             fieldsTransformed = 2, tm_timestamp = ''2024-01-15T00:00:01.200Z''\<rparr>\<rparr>"
    by (simp add: transform_def decode_def encode_def Let_def c f d m n)
  show ?thesis
    using m c k n t by (simp add: list_all_iff)
qed

text \<open>
  With a negative \<open>maxRetries\<close> the loop of \<open>executeWithRetry\<close> makes no attempt and
  throws \<open>null\<close>; the \<open>catch\<close> block of \<open>execute\<close> counts a failure and then throws
  a \<open>TypeError\<close> when it reads the message, so an exception reaches the caller.
\<close>

theorem execute_negative_retries_throws:
  assumes "maxRetries (policy A) < 0"
  shows "fst (execute H A transport clk request st) = []
       \<and> fst (snd (execute H A transport clk request st)) = Inl (TypeError ''Cannot read properties of null'')
       \<and> requestsFailed (objects (snd (snd (execute H A transport clk request st))) (metrics A))
            = requestsFailed (objects st (metrics A)) + 1"
proof -
  have "executeWithRetry H A transport request = ([], Inl None)"
    using assms by (simp add: executeWithRetry_def retry_loop.simps)
  then show ?thesis
    by (simp add: execute_def on_catch_def modify_def Let_def)
qed

theorem execute_negative_retries_throws_witness:
  "maxRetries (policy A_neg) < 0
   \<and> fst (snd (execute example_host A_neg T_ok K0 R0 S0)) = Inl (TypeError ''Cannot read properties of null'')"
  using execute_negative_retries_throws[of A_neg example_host T_ok K0 R0 S0]
  by (simp add: A_neg_def A0_def)

text \<open>
  A successful request that is not a \<open>GET\<close>: the body is returned untransformed,
  \<open>requestsTotal\<close> and \<open>requestsSuccess\<close> grow by one and the average latency
  becomes \<open>(avg * (n - 1) + duration) / n\<close> for the new success count \<open>n\<close>, in
  the arithmetic of the runtime.
\<close>

theorem execute_success_updates_average:
  assumes "executeWithRetry H A transport request = (evs, Inr result)"
    and "req_method request \<noteq> GET"
  shows "fst (snd (execute H A transport clk request st))
           = Inr \<lparr>success = True, resp_data = Some (Untransformed (hr_data result)), resp_error = None,
                  statusCode = Some (hr_status result), resp_headers = Some (hr_headers result),
                  metadata = Some \<lparr>duration = endTime clk - startTime clk,
                                    timestamp = responseStamp clk, adapter = name (config A)\<rparr>\<rparr>
       \<and> objects (snd (snd (execute H A transport clk request st))) (metrics A)
           = (objects st (metrics A))
               \<lparr>requestsTotal := requestsTotal (objects st (metrics A)) + 1,
                requestsSuccess := requestsSuccess (objects st (metrics A)) + 1,
                avgResponseTime :=
                  numberDivide H
                    (numberPlus H
                       (numberTimes H (avgResponseTime (objects st (metrics A)))
                          (Fin (real (requestsSuccess (objects st (metrics A))))))
                       (Fin (real_of_int (endTime clk - startTime clk))))
                    (Fin (real (requestsSuccess (objects st (metrics A))) + 1))\<rparr>"
  using assms by (simp add: execute_def modify_def Let_def add.commute)

theorem execute_success_updates_average_witness:
  "executeWithRetry example_host A0 T_ok R_post
     = ([Attempt 0, LogWarn 1 ''timeout'' (Fin 1000), Sleep (Fin 1000), Attempt 1],
        Inr \<lparr>hr_data = VObj [(''a'', VNum (Fin 1))], hr_status = 200, hr_headers = []\<rparr>)
   \<and> req_method R_post \<noteq> GET
   \<and> objects (snd (snd (execute example_host A0 T_ok K0 R_post S0))) (metrics A0)
       = zero_metrics\<lparr>requestsTotal := 1, requestsSuccess := 1, avgResponseTime := Fin 250\<rparr>"
proof -
  have run: "executeWithRetry example_host A0 T_ok R_post
     = ([Attempt 0, LogWarn 1 ''timeout'' (Fin 1000), Sleep (Fin 1000), Attempt 1],
        Inr \<lparr>hr_data = VObj [(''a'', VNum (Fin 1))], hr_status = 200, hr_headers = []\<rparr>)"
    by (simp add: executeWithRetry_def retry_loop.simps A0_def T_ok_def)
  have m: "req_method R_post \<noteq> GET" by (simp add: R_post_def R0_def)
  show ?thesis
    using execute_success_updates_average[OF run m, of K0 S0] run m
    by (simp add: S0_def zero_metrics_def K0_def A0_def example_host_def exact_op_def)
qed

end
